theory Spec2Isabelle
  imports Complex_Main "HOL-Library.AList" "HOL-Library.Sublist" "HOL-Library.Multiset"
begin

section \<open>Data model\<close>

text \<open>
  Timestamps are JavaScript numbers holding milliseconds since the epoch; they are
  modelled as \<open>int\<close>. A property that may be \<open>null\<close> or absent is an
  \<open>option\<close>. A JavaScript \<open>Map\<close> is an association list in insertion
  order: \<open>Map.get\<close> is \<open>map_of\<close>, \<open>Map.set\<close> is \<open>AList.update\<close>
  (an existing key keeps its position, a new key goes last) and \<open>Map.delete\<close> is
  \<open>AList.delete\<close>. A JavaScript \<open>Set\<close> of which only \<open>add\<close> and
  \<open>has\<close> are used is a HOL set. Console output is not part of the state.
\<close>

text \<open>The \<open>attributes\<close> object of one feature of the ArcGIS response, with the
  properties that \<open>parseFeature\<close> reads. Site ids and names are strings, the status is
  a number, the dates are numbers of milliseconds. (The \<open>geometry\<close> of a feature is
  read into a variable that is never used.)\<close>

record feature =
  attr_Id :: "string option"
  attr_SiteName :: "string option"
  attr_PermitName :: "string option"
  attr_LocationName :: "string option"
  attr_Name :: "string option"
  attr_Status :: "int option"
  attr_StatusStart :: "int option"
  attr_LatestEventStart :: "int option"
  attr_LatestEventEnd :: "int option"
  attr_ReceivingWaterCourse :: "string option"
  attr_Latitude :: "real option"
  attr_Longitude :: "real option"

datatype event_status = Active | Completed

text \<open>The event object built by \<open>processFeatures\<close>. The queue stores a copy
  with the extra property \<open>addedToQueue\<close>, which is absent (\<open>None\<close>) on the
  tracker's own objects.\<close>

record event =
  ev_id :: string
  waterCompany :: string
  siteId :: string
  siteName :: "string option"
  latitude :: "real option"
  longitude :: "real option"
  startTime :: int
  endTime :: "int option"
  durationMinutes :: "int option"
  status :: event_status
  receivingWatercourse :: "string option"
  rawData :: feature
  addedToQueue :: "int option"

section \<open>Event queue\<close>

record event_queue =
  events :: "(string \<times> event) list"
  postedEvents :: "string set"
  minDurationMinutes :: int

definition new_EventQueue :: event_queue where
  "new_EventQueue = \<lparr>events = [], postedEvents = {}, minDurationMinutes = 600\<rparr>"

text \<open>The number that a nullable numeric property becomes in a comparison or a
  subtraction: \<open>null\<close> is 0.\<close>

definition js_number :: "int option \<Rightarrow> int" where
  "js_number x = (case x of None \<Rightarrow> 0 | Some n \<Rightarrow> n)"

text \<open>\<open>new Date(x).getTime()\<close> for a number or \<open>null\<close>: \<open>null\<close> is time 0, and a
  number beyond 8.64e15 ms on either side of the epoch is no time value: the date is
  invalid and \<open>getTime()\<close> is \<open>NaN\<close>, here \<open>None\<close>.\<close>

definition Date_getTime :: "int option \<Rightarrow> int option" where
  "Date_getTime x =
     (case x of
        None \<Rightarrow> Some 0
      | Some t \<Rightarrow> if \<bar>t\<bar> \<le> 8640000000000000 then Some t else None)"

text \<open>\<open>addEvent(event)\<close>; \<open>now\<close> is the clock read by \<open>new Date()\<close>.
  The result is the returned boolean and the queue afterwards.\<close>

definition addEvent :: "event \<Rightarrow> int \<Rightarrow> event_queue \<Rightarrow> bool \<times> event_queue" where
  "addEvent event now q =
     (if js_number (durationMinutes event) < minDurationMinutes q then (False, q)
      else if ev_id event \<in> postedEvents q then (False, q)
      else (True, q\<lparr>events :=
              AList.update (ev_id event) (event\<lparr>addedToQueue := Some now\<rparr>) (events q)\<rparr>))"

text \<open>\<open>Array.prototype.sort(comparefn)\<close>. A comparator returns a number or \<open>NaN\<close>
  (\<open>None\<close>); the sort reads \<open>NaN\<close> as 0.\<close>

definition SortCompare :: "('a \<Rightarrow> 'a \<Rightarrow> int option) \<Rightarrow> 'a \<Rightarrow> 'a \<Rightarrow> int" where
  "SortCompare comparefn x y = (case comparefn x y of None \<Rightarrow> 0 | Some v \<Rightarrow> v)"

text \<open>The stable sort: an element is placed before the first element it does not
  compare greater than, and elements are inserted from the right, so equal elements
  keep their order.\<close>

fun insert_by :: "('a \<Rightarrow> 'a \<Rightarrow> int) \<Rightarrow> 'a \<Rightarrow> 'a list \<Rightarrow> 'a list" where
  "insert_by cmp x [] = [x]"
| "insert_by cmp x (y # ys) =
     (if cmp x y \<le> 0 then x # y # ys else y # insert_by cmp x ys)"

text \<open>What the engine of Node.js (V8) does with an array of fewer than 64 elements: it
  takes the longest run at the front that is non-descending, or strictly descending
  (then reversed), and inserts each further element at the place a binary search finds.
  \<open>run_length\<close> counts the elements that continue the run after \<open>previous\<close>.\<close>

fun run_length :: "('a \<Rightarrow> 'a \<Rightarrow> int) \<Rightarrow> bool \<Rightarrow> 'a \<Rightarrow> 'a list \<Rightarrow> nat" where
  "run_length cmp isDescending previous [] = 0"
| "run_length cmp isDescending previous (current # rest) =
     (let order = cmp current previous in
      if (if isDescending then order \<ge> 0 else order < 0) then 0
      else Suc (run_length cmp isDescending current rest))"

definition CountAndMakeRun :: "('a \<Rightarrow> 'a \<Rightarrow> int) \<Rightarrow> 'a list \<Rightarrow> 'a list \<times> 'a list" where
  "CountAndMakeRun cmp xs =
     (case xs of
        [] \<Rightarrow> ([], [])
      | [x] \<Rightarrow> ([x], [])
      | elementHigh # elementLow # rest \<Rightarrow>
          let isDescending = (cmp elementLow elementHigh < 0);
              runLength = 2 + run_length cmp isDescending elementLow rest
          in (if isDescending then rev (take runLength xs) else take runLength xs,
              drop runLength xs))"

function binary_search :: "('a \<Rightarrow> 'a \<Rightarrow> int) \<Rightarrow> 'a \<Rightarrow> 'a list \<Rightarrow> nat \<Rightarrow> nat \<Rightarrow> nat" where
  "binary_search cmp pivot a left right =
     (if left < right then
        (let mid = left + (right - left) div 2 in
         if cmp pivot (a ! mid) < 0 then binary_search cmp pivot a left mid
         else binary_search cmp pivot a (mid + 1) right)
      else left)"
  by pat_completeness auto
termination
  by (relation "measure (\<lambda>(cmp, pivot, a, left, right). right - left)") auto

declare binary_search.simps [simp del]

fun BinaryInsertionSort :: "('a \<Rightarrow> 'a \<Rightarrow> int) \<Rightarrow> 'a list \<Rightarrow> 'a list \<Rightarrow> 'a list" where
  "BinaryInsertionSort cmp work [] = work"
| "BinaryInsertionSort cmp work (pivot # rest) =
     (let left = binary_search cmp pivot work 0 (length work)
      in BinaryInsertionSort cmp (take left work @ pivot # drop left work) rest)"

definition v8_sort :: "('a \<Rightarrow> 'a \<Rightarrow> int) \<Rightarrow> 'a list \<Rightarrow> 'a list" where
  "v8_sort cmp xs =
     (if length xs < 2 then xs
      else let run = CountAndMakeRun cmp xs in BinaryInsertionSort cmp (fst run) (snd run))"

text \<open>The sort as this repository uses it, with a comparator that is a difference of two
  time values. When no comparison on the array is \<open>NaN\<close>, the comparator is a consistent
  one and the language fixes the result: the stable sort. Otherwise the language leaves
  the order to the engine, and the model follows V8 as above; for 64 elements or more
  V8 also merges runs, which the model leaves out, and no statement below rests on it.\<close>

definition array_sort :: "('a \<Rightarrow> 'a \<Rightarrow> int option) \<Rightarrow> 'a list \<Rightarrow> 'a list" where
  "array_sort comparefn xs =
     (if list_all (\<lambda>x. list_all (\<lambda>y. comparefn x y \<noteq> None) xs) xs
      then foldr (insert_by (SortCompare comparefn)) xs []
      else v8_sort (SortCompare comparefn) xs)"

text \<open>The comparator of \<open>getPostableEvents\<close>: \<open>timeB - timeA\<close>, which is \<open>NaN\<close> when
  one of the two dates is invalid.\<close>

definition byEndTimeDesc :: "event \<Rightarrow> event \<Rightarrow> int option" where
  "byEndTimeDesc a b =
     (let timeA = Date_getTime (endTime a); timeB = Date_getTime (endTime b) in
      case timeB of
        None \<Rightarrow> None
      | Some tb \<Rightarrow> (case timeA of None \<Rightarrow> None | Some ta \<Rightarrow> Some (tb - ta)))"


text \<open>\<open>getPostableEvents()\<close>: the returned array and the queue afterwards.\<close>

definition getPostableEvents :: "event_queue \<Rightarrow> event list \<times> event_queue" where
  "getPostableEvents q =
     (let evs = map snd (events q);
          unposted = filter (\<lambda>e. ev_id e \<notin> postedEvents q) evs
      in (array_sort byEndTimeDesc unposted, q))"

definition markAsPosted :: "string \<Rightarrow> event_queue \<Rightarrow> event_queue" where
  "markAsPosted eventId q = q\<lparr>postedEvents := insert eventId (postedEvents q)\<rparr>"

text \<open>\<open>cleanup()\<close> walks the entries and deletes the old ones from the map it walks.
  An entry whose date is invalid is kept: \<open>NaN < sevenDaysAgo\<close> is false.\<close>

fun cleanup_loop ::
  "int \<Rightarrow> (string \<times> event) list \<Rightarrow> (string \<times> event) list \<Rightarrow> (string \<times> event) list" where
  "cleanup_loop sevenDaysAgo [] m = m"
| "cleanup_loop sevenDaysAgo ((i, event) # rest) m =
     (case Date_getTime (endTime event) of
        None \<Rightarrow> cleanup_loop sevenDaysAgo rest m
      | Some t \<Rightarrow>
          if t < sevenDaysAgo
          then cleanup_loop sevenDaysAgo rest (AList.delete i m)
          else cleanup_loop sevenDaysAgo rest m)"

definition cleanup :: "int \<Rightarrow> event_queue \<Rightarrow> event_queue" where
  "cleanup now q =
     (let sevenDaysAgo = now - (7 * 24 * 60 * 60 * 1000)
      in q\<lparr>events := cleanup_loop sevenDaysAgo (events q) (events q)\<rparr>)"

text \<open>The calls a client can make on the queue, and a run of them.\<close>

datatype queue_call =
  AddEvent event int | GetPostableEvents | MarkAsPosted string | Cleanup int

fun queue_step :: "queue_call \<Rightarrow> event_queue \<Rightarrow> event_queue" where
  "queue_step (AddEvent e now) q = snd (addEvent e now q)"
| "queue_step GetPostableEvents q = snd (getPostableEvents q)"
| "queue_step (MarkAsPosted i) q = markAsPosted i q"
| "queue_step (Cleanup now) q = cleanup now q"

definition queue_run :: "queue_call list \<Rightarrow> event_queue \<Rightarrow> event_queue" where
  "queue_run calls q = fold queue_step calls q"

text \<open>The representation invariant of the queue's \<open>Map\<close>: keys are unique, and
  every entry is stored under its own id (\<open>addEvent\<close> is the only writer).\<close>

definition queue_wf :: "event_queue \<Rightarrow> bool" where
  "queue_wf q = (distinct (map fst (events q)) \<and> (\<forall>(k, e) \<in> set (events q). ev_id e = k))"

section \<open>Event tracker\<close>

text \<open>JavaScript's \<open>a || b\<close>: \<open>null\<close>, an absent property, the empty string and 0
  are falsy.\<close>

definition truthy_string :: "string option \<Rightarrow> bool" where
  "truthy_string x = (case x of None \<Rightarrow> False | Some s \<Rightarrow> s \<noteq> [])"

definition or_string :: "string option \<Rightarrow> string option \<Rightarrow> string option" where
  "or_string a b = (if truthy_string a then a else b)"

definition or_number :: "int option \<Rightarrow> int \<Rightarrow> int" where
  "or_number a b = (case a of None \<Rightarrow> b | Some n \<Rightarrow> if n = 0 then b else n)"

text \<open>\<open>Math.round\<close> rounds to the nearest integer, a half upwards. The quotient it is
  applied to is kept exact. A whole number of milliseconds divided by 60000 is either
  on a half or at least 1/60000 away from it, and for differences below \<open>2^50\<close> ms
  (some 35000 years) the error of the double division is below \<open>2^-19\<close>, so the
  rounded result is the same.\<close>

definition Math_round :: "real \<Rightarrow> int" where
  "Math_round x = \<lfloor>x + 1 / 2\<rfloor>"

record parsed_feature =
  p_siteId :: "string option"
  p_siteName :: "string option"
  p_status :: "int option"
  p_statusStart :: "int option"
  p_latestEventStart :: "int option"
  p_latestEventEnd :: "int option"
  p_receivingWatercourse :: "string option"
  p_latitude :: "real option"
  p_longitude :: "real option"
  p_rawData :: feature

definition parseFeature :: "feature \<Rightarrow> parsed_feature" where
  "parseFeature attrs =
     \<lparr>p_siteId = attr_Id attrs,
      p_siteName = or_string (or_string (or_string (or_string (attr_SiteName attrs)
          (attr_PermitName attrs)) (attr_LocationName attrs)) (attr_Name attrs)) None,
      p_status = attr_Status attrs,
      p_statusStart = attr_StatusStart attrs,
      p_latestEventStart = attr_LatestEventStart attrs,
      p_latestEventEnd = attr_LatestEventEnd attrs,
      p_receivingWatercourse = attr_ReceivingWaterCourse attrs,
      p_latitude = attr_Latitude attrs,
      p_longitude = attr_Longitude attrs,
      p_rawData = attrs\<rparr>"

text \<open>\<open>waterCompany.toLowerCase().replace(/\s+/g, '_')\<close> on ASCII text: every run of
  whitespace becomes one underscore. The flag says that the previous character was
  whitespace.\<close>

definition toLowerCase_char :: "char \<Rightarrow> char" where
  "toLowerCase_char c =
     (let n = of_char c :: nat in if 65 \<le> n \<and> n \<le> 90 then char_of (n + 32) else c)"

definition isWhitespace :: "char \<Rightarrow> bool" where
  "isWhitespace c = (of_char c \<in> {9, 10, 11, 12, 13, 32 :: nat})"

fun replaceWhitespace :: "bool \<Rightarrow> string \<Rightarrow> string" where
  "replaceWhitespace inRun [] = []"
| "replaceWhitespace inRun (c # cs) =
     (if isWhitespace c
      then (if inRun then replaceWhitespace True cs else CHR ''_'' # replaceWhitespace True cs)
      else c # replaceWhitespace False cs)"

definition companyKeyOf :: "string \<Rightarrow> string" where
  "companyKeyOf name = replaceWhitespace False (map toLowerCase_char name)"

text \<open>The tracker: the map of active events, the event queue it was given, and the
  database, of which the tracker uses \<open>upsertEvent\<close> only: \<open>db\<close> is the sequence of
  objects handed to \<open>upsertEvent\<close>, oldest first (the JSON store behind it is not
  modelled). The site mapping is read for console output only.\<close>

record tracker =
  activeEvents :: "(string \<times> event) list"
  db :: "event list"
  eventQueue :: event_queue

definition new_EventTracker :: "event_queue \<Rightarrow> tracker" where
  "new_EventTracker q = \<lparr>activeEvents = [], db = [], eventQueue = q\<rparr>"

definition upsertEvent :: "event \<Rightarrow> tracker \<Rightarrow> tracker" where
  "upsertEvent event st = st\<lparr>db := db st @ [event]\<rparr>"

text \<open>\<open>generateDischargeSummary\<close> prints the summary and hands the event to the queue.
  The queue reads the clock again for \<open>addedToQueue\<close>; the model passes the time of
  the tick, and nothing reads that property.\<close>

definition generateDischargeSummary :: "event \<Rightarrow> int \<Rightarrow> tracker \<Rightarrow> tracker" where
  "generateDischargeSummary event now st =
     (let added = addEvent event now (eventQueue st) in st\<lparr>eventQueue := snd added\<rparr>)"

text \<open>The body of the first loop of \<open>processFeatures\<close>, for one feature. The state is
  the tracker and the set \<open>activeSiteIds\<close>. (The variable \<open>startTime\<close> computed from
  \<open>latestEventStart\<close> in the source is never read.)\<close>

definition process_feature ::
  "string \<Rightarrow> string \<Rightarrow> int \<Rightarrow> feature \<Rightarrow> tracker \<times> string set \<Rightarrow> tracker \<times> string set" where
  "process_feature company companyKey now feature acc =
     (let st = fst acc; activeSiteIds = snd acc; parsed = parseFeature feature in
      case p_siteId parsed of
        None \<Rightarrow> acc
      | Some sid \<Rightarrow>
          if sid = [] then acc
          else
            let isDischarging = (p_status parsed = Some 1) in
            if isDischarging then
              let activeSiteIds' = insert sid activeSiteIds;
                  eventKey = companyKey @ '':'' @ sid
              in (case map_of (activeEvents st) eventKey of
                    None \<Rightarrow>
                      let actualStartTime = or_number (p_statusStart parsed) now;
                          event = \<lparr>ev_id = eventKey, waterCompany = company, siteId = sid,
                                   siteName = p_siteName parsed,
                                   latitude = p_latitude parsed, longitude = p_longitude parsed,
                                   startTime = actualStartTime, endTime = None,
                                   durationMinutes = None, status = Active,
                                   receivingWatercourse = p_receivingWatercourse parsed,
                                   rawData = p_rawData parsed, addedToQueue = None\<rparr>;
                          st1 = upsertEvent event st
                      in (st1\<lparr>activeEvents := AList.update eventKey event (activeEvents st1)\<rparr>,
                          activeSiteIds')
                  | Some existingEvent \<Rightarrow>
                      let existingEvent' = existingEvent\<lparr>rawData := p_rawData parsed,
                              receivingWatercourse := p_receivingWatercourse parsed\<rparr>;
                          st1 = st\<lparr>activeEvents :=
                                  AList.update eventKey existingEvent' (activeEvents st)\<rparr>
                      in (upsertEvent existingEvent' st1, activeSiteIds'))
            else acc)"

text \<open>The assignments that complete an event: \<open>endTime\<close>, \<open>durationMinutes\<close> and
  \<open>status\<close>.\<close>

definition completed :: "int \<Rightarrow> event \<Rightarrow> event" where
  "completed now event =
     event\<lparr>endTime := Some now,
           durationMinutes := Some (Math_round (real_of_int (now - startTime event) / (1000 * 60))),
           status := Completed\<rparr>"

text \<open>The second loop of \<open>processFeatures\<close> walks the entries of \<open>activeEvents\<close> and
  completes those of this company whose site was not seen discharging.\<close>

fun ended_loop ::
  "string \<Rightarrow> int \<Rightarrow> string set \<Rightarrow> (string \<times> event) list \<Rightarrow> tracker \<Rightarrow> tracker" where
  "ended_loop companyKey now activeSiteIds [] st = st"
| "ended_loop companyKey now activeSiteIds ((eventKey, event) # rest) st =
     (if prefix (companyKey @ '':'') eventKey then
        (if siteId event \<notin> activeSiteIds then
           let event' = completed now event;
               st1 = generateDischargeSummary event' now st;
               st2 = upsertEvent event' st1;
               st3 = st2\<lparr>activeEvents := AList.delete eventKey (activeEvents st2)\<rparr>
           in ended_loop companyKey now activeSiteIds rest st3
         else ended_loop companyKey now activeSiteIds rest st)
      else ended_loop companyKey now activeSiteIds rest st)"

text \<open>\<open>processFeatures(waterCompany, features)\<close>; \<open>now\<close> is the value of
  \<open>Date.now()\<close> read on entry.\<close>

definition processFeatures :: "string \<Rightarrow> feature list \<Rightarrow> int \<Rightarrow> tracker \<Rightarrow> tracker" where
  "processFeatures company features now st =
     (let companyKey = companyKeyOf company;
          acc = fold (process_feature company companyKey now) features (st, {});
          st1 = fst acc; activeSiteIds = snd acc
      in ended_loop companyKey now activeSiteIds (activeEvents st1) st1)"

text \<open>The configured water companies (\<open>config.js\<close>), without their endpoint URLs.\<close>

record company =
  company_name :: string
  updateFrequencyMinutes :: nat
  layerId :: nat

definition WATER_COMPANIES :: "(string \<times> company) list" where
  "WATER_COMPANIES =
     [(''anglian_water'',
         \<lparr>company_name = ''Anglian Water'', updateFrequencyMinutes = 60, layerId = 0\<rparr>),
      (''thames_water'',
         \<lparr>company_name = ''Thames Water'', updateFrequencyMinutes = 5, layerId = 0\<rparr>),
      (''united_utilities'',
         \<lparr>company_name = ''United Utilities'', updateFrequencyMinutes = 60, layerId = 0\<rparr>),
      (''yorkshire_water'',
         \<lparr>company_name = ''Yorkshire Water'', updateFrequencyMinutes = 60, layerId = 0\<rparr>),
      (''southern_water'',
         \<lparr>company_name = ''Southern Water'', updateFrequencyMinutes = 15, layerId = 0\<rparr>),
      (''severn_trent_water'',
         \<lparr>company_name = ''Severn Trent Water'', updateFrequencyMinutes = 60, layerId = 0\<rparr>)]"

text \<open>What \<open>getAllOverflows\<close> does for one company in one tick: it throws, or it
  returns an object whose \<open>features\<close> may be absent.\<close>

datatype fetch_result = FetchError | Fetched "feature list option"

text \<open>The loop of \<open>checkAPI\<close> over the companies. \<open>getAllOverflows\<close> gives the
  outcome of the fetch for each company of this tick, \<open>clock\<close> the time at which its
  \<open>processFeatures\<close> call reads \<open>Date.now()\<close>. An exception is caught per company.
  The statistics that \<open>checkAPI\<close> computes around the loop are only printed.\<close>

fun checkAPI_loop ::
  "(string \<times> company) list \<Rightarrow> (string \<Rightarrow> fetch_result) \<Rightarrow> (string \<Rightarrow> int) \<Rightarrow> tracker \<Rightarrow> tracker"
  where
  "checkAPI_loop [] getAllOverflows clock st = st"
| "checkAPI_loop ((key, c) # rest) getAllOverflows clock st =
     (case getAllOverflows key of
        FetchError \<Rightarrow> checkAPI_loop rest getAllOverflows clock st
      | Fetched None \<Rightarrow> checkAPI_loop rest getAllOverflows clock st
      | Fetched (Some features) \<Rightarrow>
          if length features > 0
          then checkAPI_loop rest getAllOverflows clock
                 (processFeatures (company_name c) features (clock key) st)
          else checkAPI_loop rest getAllOverflows clock st)"

definition checkAPI :: "(string \<Rightarrow> fetch_result) \<Rightarrow> (string \<Rightarrow> int) \<Rightarrow> tracker \<Rightarrow> tracker" where
  "checkAPI getAllOverflows clock st = checkAPI_loop WATER_COMPANIES getAllOverflows clock st"

subsection \<open>Notions used to state the tracker's properties\<close>

text \<open>The site id under which a feature counts as a discharging observation, if it does:
  the id is present and not empty, and the status is 1.\<close>

definition dischargingSiteId :: "feature \<Rightarrow> string option" where
  "dischargingSiteId f =
     (case attr_Id f of
        None \<Rightarrow> None
      | Some sid \<Rightarrow> if sid \<noteq> [] \<and> attr_Status f = Some 1 then Some sid else None)"

text \<open>The test of the second loop on an entry.\<close>

definition ended :: "string \<Rightarrow> string set \<Rightarrow> string \<times> event \<Rightarrow> bool" where
  "ended companyKey activeSiteIds kv =
     (prefix (companyKey @ '':'') (fst kv) \<and> siteId (snd kv) \<notin> activeSiteIds)"

text \<open>The active event ids with their site and start time, in the order of the map.\<close>

definition tracked :: "(string \<times> event) list \<Rightarrow> (string \<times> string \<times> int) list" where
  "tracked m = map (\<lambda>kv. (fst kv, siteId (snd kv), startTime (snd kv))) m"

text \<open>The invariant of the tracker's map: keys are unique; every event is stored under
  its own id, is active, and the text of its key after the first colon is its site id.
  It holds of the empty map and is kept by \<open>processFeatures\<close> for every company whose
  key has no colon, as the configured ones.\<close>

definition tracker_inv :: "tracker \<Rightarrow> bool" where
  "tracker_inv st =
     (distinct (map fst (activeEvents st))
      \<and> (\<forall>kv \<in> set (activeEvents st).
            ev_id (snd kv) = fst kv
            \<and> dropWhile (\<lambda>c. c \<noteq> CHR '':'') (fst kv) = CHR '':'' # siteId (snd kv)
            \<and> status (snd kv) = Active))"

section \<open>Post scheduler\<close>

text \<open>The scheduler's counters. Every firing of the timer is one call of
  \<open>processNextPost\<close>; the timer itself is modelled at the end of this section.\<close>

record post_scheduler =
  postsToday :: nat
  maxPostsPerDay :: nat
  lastPostDate :: "string option"
  isRunning :: bool

definition new_PostScheduler :: post_scheduler where
  "new_PostScheduler =
     \<lparr>postsToday = 0, maxPostsPerDay = 16, lastPostDate = None, isRunning = False\<rparr>"

text \<open>What an awaited call of a collaborator does: it throws, or it returns a result,
  of which the scheduler reads the \<open>success\<close> flag.\<close>

datatype 'a outcome = Throws | Returns 'a

text \<open>What the environment does during one cycle: the date \<open>new Date()\<close> shows
  (\<open>toISOString().split('T')[0]\<close>), the outcomes of \<open>generateCycleData\<close>,
  \<open>publishToGitHub\<close> and \<open>twitterPoster.tweet\<close>, and whether the poster is
  configured.\<close>

record cycle_io =
  today :: string
  generateCycleData :: "bool outcome"
  publishToGitHub :: "bool outcome"
  isConfigured :: bool
  tweet :: "bool outcome"

definition resetDailyCounterIfNeeded :: "string \<Rightarrow> post_scheduler \<Rightarrow> post_scheduler" where
  "resetDailyCounterIfNeeded date s =
     (if lastPostDate s \<noteq> Some date then s\<lparr>postsToday := 0, lastPostDate := Some date\<rparr> else s)"

text \<open>\<open>processNextPost\<close> of \<open>src/scheduler/post-scheduler.js\<close>, the scheduler that
  \<open>index.js\<close> starts. An exception anywhere is caught at the end of the function;
  the state reached by then stays. (\<open>generateTweet\<close> only builds a string.)\<close>

definition processNextPost ::
  "cycle_io \<Rightarrow> post_scheduler \<times> event_queue \<Rightarrow> post_scheduler \<times> event_queue" where
  "processNextPost io sq =
     (let s = resetDailyCounterIfNeeded (today io) (fst sq);
          q = snd sq;
          evs = fst (getPostableEvents q)
      in case evs of
           [] \<Rightarrow> (s, q)
         | eventToPost # _ \<Rightarrow>
             (case generateCycleData io of
                Throws \<Rightarrow> (s, q)
              | Returns cycleData_success \<Rightarrow>
                  if \<not> cycleData_success then (s, q)
                  else
                    (case publishToGitHub io of
                       Throws \<Rightarrow> (s, q)
                     | Returns published_success \<Rightarrow>
                         if \<not> published_success then (s, q)
                         else if isConfigured io then
                           (case tweet io of
                              Throws \<Rightarrow> (s, q)
                            | Returns result_success \<Rightarrow>
                                if result_success
                                then (s\<lparr>postsToday := postsToday s + 1\<rparr>,
                                      markAsPosted (ev_id eventToPost) q)
                                else (s, q))
                         else (s, q))))"

text \<open>\<open>processNextPost\<close> of the fixed-schedule revision of the scheduler, which marks
  every event of the cycle. (Its branch for the empty list calls \<open>getNextPostTime\<close>,
  which that revision does not define; the exception is caught and nothing changes.)\<close>

definition processNextPost_fixedSchedule ::
  "cycle_io \<Rightarrow> post_scheduler \<times> event_queue \<Rightarrow> post_scheduler \<times> event_queue" where
  "processNextPost_fixedSchedule io sq =
     (let s = resetDailyCounterIfNeeded (today io) (fst sq);
          q = snd sq;
          evs = fst (getPostableEvents q)
      in if length evs = 0 then (s, q)
         else
           (case generateCycleData io of
              Throws \<Rightarrow> (s, q)
            | Returns cycleData_success \<Rightarrow>
                if \<not> cycleData_success then (s, q)
                else
                  (case publishToGitHub io of
                     Throws \<Rightarrow> (s, q)
                   | Returns published_success \<Rightarrow>
                       if \<not> published_success then (s, q)
                       else if isConfigured io then
                         (case tweet io of
                            Throws \<Rightarrow> (s, q)
                          | Returns result_success \<Rightarrow>
                              if result_success
                              then (s\<lparr>postsToday := postsToday s + 1\<rparr>,
                                    fold (\<lambda>e. markAsPosted (ev_id e)) evs q)
                              else (s, q))
                       else (s, q))))"


text \<open>The cycle's publish succeeded: the data file was generated, the push went
  through, and the tweet was posted.\<close>

definition publish_succeeded :: "cycle_io \<Rightarrow> bool" where
  "publish_succeeded io =
     (generateCycleData io = Returns True \<and> publishToGitHub io = Returns True
      \<and> isConfigured io \<and> tweet io = Returns True)"

subsection \<open>The timer\<close>











section \<open>Concrete inputs\<close>

definition empty_feature :: feature where
  "empty_feature = \<lparr>attr_Id = None, attr_SiteName = None, attr_PermitName = None,
     attr_LocationName = None, attr_Name = None, attr_Status = None, attr_StatusStart = None,
     attr_LatestEventStart = None, attr_LatestEventEnd = None, attr_ReceivingWaterCourse = None,
     attr_Latitude = None, attr_Longitude = None\<rparr>"

text \<open>A completed event with the given id, start, end and duration in minutes.\<close>

definition example_completed :: "string \<Rightarrow> int \<Rightarrow> int \<Rightarrow> int \<Rightarrow> event" where
  "example_completed i s e d =
     \<lparr>ev_id = i, waterCompany = ''Thames Water'', siteId = i, siteName = None,
      latitude = None, longitude = None, startTime = s, endTime = Some e,
      durationMinutes = Some d, status = Completed, receivingWatercourse = None,
      rawData = empty_feature, addedToQueue = None\<rparr>"

text \<open>A feature with the given id, status and status-change timestamp.\<close>

definition example_feature :: "string \<Rightarrow> int \<Rightarrow> int option \<Rightarrow> feature" where
  "example_feature i s t =
     empty_feature\<lparr>attr_Id := Some i, attr_Status := Some s, attr_StatusStart := t\<rparr>"

text \<open>A cycle on the given date in which every collaborator succeeds.\<close>

definition example_io :: "string \<Rightarrow> cycle_io" where
  "example_io date = \<lparr>today = date, generateCycleData = Returns True,
     publishToGitHub = Returns True, isConfigured = True, tweet = Returns True\<rparr>"

text \<open>A queue holding two events that were never posted; \<open>b\<close> ended later.\<close>

definition example_queue :: event_queue where
  "example_queue =
     queue_run [AddEvent (example_completed ''a'' 0 42000000 700) 42000001,
                AddEvent (example_completed ''b'' 0 48000000 800) 48000001] new_EventQueue"


section \<open>Properties of the event queue\<close>

lemmas example_defs = example_completed_def empty_feature_def new_EventQueue_def

lemmas sort_defs =
  js_number_def Date_getTime_def byEndTimeDesc_def SortCompare_def array_sort_def Let_def

lemma postedEvents_queue_step: "postedEvents q \<subseteq> postedEvents (queue_step c q)"
  by (cases c) (auto simp: addEvent_def getPostableEvents_def markAsPosted_def cleanup_def Let_def)

lemma postedEvents_queue_run: "postedEvents q \<subseteq> postedEvents (queue_run cs q)"
  unfolding queue_run_def
proof (induction cs arbitrary: q)
  case Nil
  show ?case by simp
next
  case (Cons c cs)
  have "postedEvents q \<subseteq> postedEvents (queue_step c q)"
    by (rule postedEvents_queue_step)
  also have "\<dots> \<subseteq> postedEvents (fold queue_step cs (queue_step c q))"
    by (rule Cons.IH)
  finally show ?case by simp
qed

text \<open>
  C9. Once \<open>markAsPosted(id)\<close> has been called, every later \<open>addEvent\<close> of an
  event with that id returns \<open>false\<close> and leaves the queue as it is, whatever calls
  (further adds, reads, marks, cleanups) were made in between: the set of posted ids
  only grows, and \<open>cleanup\<close> does not prune it.
\<close>

theorem posted_id_never_readded:
  "addEvent e now (queue_run calls (markAsPosted (ev_id e) q))
     = (False, queue_run calls (markAsPosted (ev_id e) q))
   \<and> postedEvents q \<subseteq> postedEvents (queue_run calls q)
   \<and> postedEvents (cleanup t q) = postedEvents q"
proof -
  have "ev_id e \<in> postedEvents (markAsPosted (ev_id e) q)"
    by (simp add: markAsPosted_def)
  then have "ev_id e \<in> postedEvents (queue_run calls (markAsPosted (ev_id e) q))"
    using postedEvents_queue_run by blast
  then have "addEvent e now (queue_run calls (markAsPosted (ev_id e) q))
     = (False, queue_run calls (markAsPosted (ev_id e) q))"
    by (simp add: addEvent_def)
  moreover have "postedEvents (cleanup t q) = postedEvents q"
    by (simp add: cleanup_def Let_def)
  ultimately show ?thesis
    using postedEvents_queue_run by blast
qed

subsection \<open>The representation invariant\<close>

lemma set_update_cases:
  "x \<in> set (AList.update k v al) \<Longrightarrow> x = (k, v) \<or> x \<in> set al"
  by (induction al) (auto split: if_splits)

lemma cleanup_loop_subset: "set (cleanup_loop c es m) \<subseteq> set m"
proof (induction es arbitrary: m)
  case Nil
  show ?case by simp
next
  case (Cons a es)
  obtain i ev where a: "a = (i, ev)" by (cases a)
  have "set (cleanup_loop c es (AList.delete i m)) \<subseteq> set (AList.delete i m)"
    by (rule Cons.IH)
  also have "\<dots> \<subseteq> set m"
    by (auto simp: AList.delete_eq)
  finally show ?case
    using Cons.IH [of m] by (simp add: a split: option.splits)
qed

lemma cleanup_loop_distinct:
  "distinct (map fst m) \<Longrightarrow> distinct (map fst (cleanup_loop c es m))"
proof (induction es arbitrary: m)
  case Nil
  then show ?case by simp
next
  case (Cons a es)
  obtain i ev where a: "a = (i, ev)" by (cases a)
  from Cons.prems have "distinct (map fst (AList.delete i m))"
    by (rule distinct_delete)
  with Cons show ?case
    by (simp add: a split: option.splits)
qed

lemma queue_wf_new: "queue_wf new_EventQueue"
  by (simp add: queue_wf_def new_EventQueue_def)

lemma queue_wf_addEvent: "queue_wf q \<Longrightarrow> queue_wf (snd (addEvent e now q))"
  unfolding queue_wf_def addEvent_def
  by (auto simp: distinct_update dest!: set_update_cases)

lemma queue_wf_step: "queue_wf q \<Longrightarrow> queue_wf (queue_step c q)"
proof (cases c)
  case (AddEvent e now)
  assume "queue_wf q"
  then show ?thesis
    unfolding AddEvent by (simp add: queue_wf_addEvent)
next
  case GetPostableEvents
  assume "queue_wf q"
  then show ?thesis
    unfolding GetPostableEvents by (simp add: getPostableEvents_def Let_def)
next
  case (MarkAsPosted i)
  assume "queue_wf q"
  then show ?thesis
    unfolding MarkAsPosted by (simp add: markAsPosted_def queue_wf_def)
next
  case (Cleanup now)
  assume "queue_wf q"
  then show ?thesis
    unfolding Cleanup queue_wf_def
    using cleanup_loop_subset [of "now - (7 * 24 * 60 * 60 * 1000)" "events q" "events q"]
    by (auto simp: cleanup_loop_distinct cleanup_def Let_def)
qed

lemma queue_wf_run: "queue_wf q \<Longrightarrow> queue_wf (queue_run cs q)"
  unfolding queue_run_def
  by (induction cs arbitrary: q) (simp_all add: queue_wf_step)

subsection \<open>Adding\<close>

lemma count_key_distinct:
  "distinct (map fst al) \<Longrightarrow> k \<in> fst ` set al \<Longrightarrow> length (filter (\<lambda>kv. fst kv = k) al) = 1"
proof (induction al)
  case Nil
  then show ?case by simp
next
  case (Cons a al)
  show ?case
  proof (cases "fst a = k")
    case True
    with Cons.prems have "k \<notin> fst ` set al" by auto
    then have "filter (\<lambda>kv. fst kv = k) al = []"
      by (auto simp: filter_empty_conv)
    with True show ?thesis by simp
  next
    case False
    with Cons show ?thesis by auto
  qed
qed

lemma addEvent_keys:
  "map fst (events (snd (addEvent e now q))) =
     (if fst (addEvent e now q) \<and> ev_id e \<notin> fst ` set (events q)
      then map fst (events q) @ [ev_id e] else map fst (events q))"
  by (auto simp: addEvent_def update_keys)

lemma addEvent_distinct:
  "distinct (map fst (events q)) \<Longrightarrow> distinct (map fst (events (snd (addEvent e now q))))"
  by (simp add: addEvent_def distinct_update)

text \<open>
  C1, as the code has it. \<open>addEvent(e)\<close> returns \<open>false\<close> and leaves the queue as it
  is whenever \<open>e.durationMinutes < minDurationMinutes\<close> or the id of \<open>e\<close> is in the
  set of posted ids. Otherwise it stores \<open>e\<close> under its id and returns \<open>true\<close>, also
  when an entry for that id is already in the queue: the entry is replaced. Calling
  \<open>addEvent\<close> twice with the same event gives the same answer both times, and after
  two successful calls the queue (a map with unique keys) holds exactly one entry for
  the id.
\<close>

theorem addEvent_dedup:
  "(js_number (durationMinutes e) < minDurationMinutes q \<or> ev_id e \<in> postedEvents q
      \<longrightarrow> addEvent e now q = (False, q))
   \<and> (\<not> js_number (durationMinutes e) < minDurationMinutes q \<and> ev_id e \<notin> postedEvents q
      \<longrightarrow> addEvent e now q
            = (True, q\<lparr>events := AList.update (ev_id e) (e\<lparr>addedToQueue := Some now\<rparr>) (events q)\<rparr>)
          \<and> map_of (events (snd (addEvent e now q))) (ev_id e) = Some (e\<lparr>addedToQueue := Some now\<rparr>))
   \<and> fst (addEvent e now' (snd (addEvent e now q))) = fst (addEvent e now q)
   \<and> (distinct (map fst (events q)) \<and> fst (addEvent e now q)
      \<longrightarrow> length (filter (\<lambda>kv. fst kv = ev_id e)
                    (events (snd (addEvent e now' (snd (addEvent e now q)))))) = 1)"
proof -
  have a: "js_number (durationMinutes e) < minDurationMinutes q \<or> ev_id e \<in> postedEvents q
      \<longrightarrow> addEvent e now q = (False, q)"
    by (simp add: addEvent_def)
  have b: "\<not> js_number (durationMinutes e) < minDurationMinutes q \<and> ev_id e \<notin> postedEvents q
      \<longrightarrow> addEvent e now q
            = (True, q\<lparr>events := AList.update (ev_id e) (e\<lparr>addedToQueue := Some now\<rparr>) (events q)\<rparr>)
          \<and> map_of (events (snd (addEvent e now q))) (ev_id e) = Some (e\<lparr>addedToQueue := Some now\<rparr>)"
    by (simp add: addEvent_def update_conv')
  have c: "fst (addEvent e now' (snd (addEvent e now q))) = fst (addEvent e now q)"
    by (simp add: addEvent_def)
  have d: "length (filter (\<lambda>kv. fst kv = ev_id e)
                    (events (snd (addEvent e now' (snd (addEvent e now q)))))) = 1"
    if dis: "distinct (map fst (events q))" and ok: "fst (addEvent e now q)"
  proof -
    let ?q2 = "snd (addEvent e now' (snd (addEvent e now q)))"
    have "distinct (map fst (events ?q2))"
      using dis by (intro addEvent_distinct)
    moreover have "ev_id e \<in> set (map fst (events ?q2))"
      using ok c by (simp only: addEvent_keys) (auto split: if_splits)
    ultimately show ?thesis
      by (intro count_key_distinct) auto
  qed
  from a b c d show ?thesis by blast
qed

theorem addEvent_dedup_witness:
  "addEvent (example_completed ''a'' 0 18000000 300) 1 new_EventQueue = (False, new_EventQueue)
   \<and> addEvent (example_completed ''a'' 0 42000000 700) 1 (markAsPosted ''a'' new_EventQueue)
       = (False, markAsPosted ''a'' new_EventQueue)
   \<and> fst (addEvent (example_completed ''a'' 0 42000000 700) 1 new_EventQueue)
   \<and> fst (addEvent (example_completed ''a'' 0 42000000 700) 2
            (snd (addEvent (example_completed ''a'' 0 42000000 700) 1 new_EventQueue)))
   \<and> length (filter (\<lambda>kv. fst kv = ''a'')
        (events (snd (addEvent (example_completed ''a'' 0 42000000 700) 2
            (snd (addEvent (example_completed ''a'' 0 42000000 700) 1 new_EventQueue)))))) = 1"
proof -
  let ?e = "example_completed ''a'' 0 42000000 700"
  let ?s = "example_completed ''a'' 0 18000000 300"
  have h1: "js_number (durationMinutes ?s) < minDurationMinutes new_EventQueue"
    by (simp add: example_defs js_number_def)
  have h2: "ev_id ?e \<in> postedEvents (markAsPosted ''a'' new_EventQueue)"
    by (simp add: example_defs markAsPosted_def)
  have h3: "\<not> js_number (durationMinutes ?e) < minDurationMinutes new_EventQueue
      \<and> ev_id ?e \<notin> postedEvents new_EventQueue"
    by (simp add: example_defs js_number_def)
  have h4: "distinct (map fst (events new_EventQueue))"
    by (simp add: example_defs)
  have i: "ev_id ?e = ''a''"
    by (simp add: example_defs)
  from h1 have "addEvent ?s 1 new_EventQueue = (False, new_EventQueue)"
    using addEvent_dedup [of ?s new_EventQueue 1 2] by blast
  moreover from h2 have "addEvent ?e 1 (markAsPosted ''a'' new_EventQueue)
       = (False, markAsPosted ''a'' new_EventQueue)"
    using addEvent_dedup [of ?e "markAsPosted ''a'' new_EventQueue" 1 2] by blast
  moreover from h3 have t: "fst (addEvent ?e 1 new_EventQueue)"
    using addEvent_dedup [of ?e new_EventQueue 1 2] by simp
  moreover from t have "fst (addEvent ?e 2 (snd (addEvent ?e 1 new_EventQueue)))"
    using addEvent_dedup [of ?e new_EventQueue 1 2] by simp
  moreover from t h4 have "length (filter (\<lambda>kv. fst kv = ''a'')
        (events (snd (addEvent ?e 2 (snd (addEvent ?e 1 new_EventQueue)))))) = 1"
    using addEvent_dedup [of ?e new_EventQueue 1 2] unfolding i by blast
  ultimately show ?thesis by blast
qed

text \<open>The claim as stated fails: a 700-minute event is added to the empty queue, so
  an entry for its id exists and is not posted; adding it again returns \<open>true\<close> and
  rewrites the entry (its \<open>addedToQueue\<close> changes from 1 to 2).\<close>

theorem addEvent_existing_entry_counterexample:
  "map_of (events (snd (addEvent (example_completed ''a'' 0 42000000 700) 1 new_EventQueue))) ''a''
      = Some ((example_completed ''a'' 0 42000000 700)\<lparr>addedToQueue := Some 1\<rparr>)
   \<and> addEvent (example_completed ''a'' 0 42000000 700) 2
        (snd (addEvent (example_completed ''a'' 0 42000000 700) 1 new_EventQueue))
      \<noteq> (False, snd (addEvent (example_completed ''a'' 0 42000000 700) 1 new_EventQueue))
   \<and> fst (addEvent (example_completed ''a'' 0 42000000 700) 2
        (snd (addEvent (example_completed ''a'' 0 42000000 700) 1 new_EventQueue))) = True
   \<and> map_of (events (snd (addEvent (example_completed ''a'' 0 42000000 700) 2
        (snd (addEvent (example_completed ''a'' 0 42000000 700) 1 new_EventQueue))))) ''a''
      = Some ((example_completed ''a'' 0 42000000 700)\<lparr>addedToQueue := Some 2\<rparr>)"
  by (simp add: addEvent_def example_defs js_number_def)

subsection \<open>Reading\<close>







lemma mset_insert_by: "mset (insert_by cmp x xs) = add_mset x (mset xs)"
  by (induction xs) auto

lemma mset_foldr_insert_by: "mset (foldr (insert_by cmp) xs []) = mset xs"
  by (induction xs) (simp_all add: mset_insert_by)

lemma mset_BinaryInsertionSort:
  "mset (BinaryInsertionSort cmp work rest) = mset work + mset rest"
proof (induction rest arbitrary: work)
  case Nil
  show ?case by simp
next
  case (Cons pivot rest)
  have "mset (take n work @ pivot # drop n work) = add_mset pivot (mset work)" for n
    by (metis append_take_drop_id mset.simps(2) mset_append union_mset_add_mset_right)
  then show ?case
    by (simp add: Cons.IH Let_def)
qed

lemma mset_CountAndMakeRun:
  "mset (fst (CountAndMakeRun cmp xs)) + mset (snd (CountAndMakeRun cmp xs)) = mset xs"
proof -
  have "mset (take n ys) + mset (drop n ys) = mset ys" for n and ys :: "'a list"
    by (metis append_take_drop_id mset_append)
  then show ?thesis
    by (auto simp: CountAndMakeRun_def Let_def split: list.splits simp del: take_Suc_Cons drop_Suc_Cons)
qed

lemma mset_array_sort: "mset (array_sort comparefn xs) = mset xs"
  by (simp add: array_sort_def v8_sort_def mset_foldr_insert_by mset_BinaryInsertionSort
      mset_CountAndMakeRun Let_def)

lemma set_array_sort: "set (array_sort comparefn xs) = set xs"
  using mset_array_sort [of comparefn xs] by (rule mset_eq_setD)




subsection \<open>Marking\<close>

text \<open>
  C7, as the code has it. For an id with no entry in the queue, \<open>markAsPosted(id)\<close>
  returns normally, leaves the map of entries and the result of \<open>getPostableEvents\<close>
  unchanged, and records the id in the set of posted ids; from then on \<open>addEvent\<close> of
  any event with that id returns \<open>false\<close> and changes nothing.
\<close>

theorem markAsPosted_absent:
  assumes wf: "queue_wf q"
    and absent: "map_of (events q) i = None"
  shows "events (markAsPosted i q) = events q
    \<and> fst (getPostableEvents (markAsPosted i q)) = fst (getPostableEvents q)
    \<and> postedEvents (markAsPosted i q) = insert i (postedEvents q)
    \<and> (\<forall>e now. addEvent (e\<lparr>ev_id := i\<rparr>) now (markAsPosted i q) = (False, markAsPosted i q))"
proof -
  have "ev_id e \<noteq> i" if "e \<in> snd ` set (events q)" for e
  proof -
    from that obtain k where ke: "(k, e) \<in> set (events q)" by force
    with wf have "ev_id e = k" by (auto simp: queue_wf_def)
    moreover from ke absent have "k \<noteq> i"
      by (metis map_of_eq_None_iff fst_conv image_eqI)
    ultimately show ?thesis by simp
  qed
  then have "filter (\<lambda>e. ev_id e \<notin> insert i (postedEvents q)) (map snd (events q))
      = filter (\<lambda>e. ev_id e \<notin> postedEvents q) (map snd (events q))"
    by (intro filter_cong) auto
  then show ?thesis
    by (simp add: getPostableEvents_def markAsPosted_def addEvent_def Let_def)
qed

theorem markAsPosted_absent_witness:
  "queue_wf new_EventQueue \<and> map_of (events new_EventQueue) ''x'' = None
   \<and> events (markAsPosted ''x'' new_EventQueue) = []
   \<and> fst (getPostableEvents (markAsPosted ''x'' new_EventQueue)) = fst (getPostableEvents new_EventQueue)
   \<and> postedEvents (markAsPosted ''x'' new_EventQueue) = {''x''}
   \<and> addEvent (example_completed ''x'' 0 42000000 700) 1 (markAsPosted ''x'' new_EventQueue)
        = (False, markAsPosted ''x'' new_EventQueue)"
proof -
  have a: "map_of (events new_EventQueue) ''x'' = None"
    by (simp add: new_EventQueue_def)
  have e: "(example_completed ''x'' 0 42000000 700)\<lparr>ev_id := ''x''\<rparr>
      = example_completed ''x'' 0 42000000 700"
    by (simp add: example_completed_def)
  have n: "events new_EventQueue = [] \<and> postedEvents new_EventQueue = {}"
    by (simp add: new_EventQueue_def)
  show ?thesis
    using markAsPosted_absent [OF queue_wf_new a] a e n queue_wf_new by metis
qed

text \<open>The claim as stated fails: on the empty queue, marking the absent id \<open>x\<close>
  changes what a later \<open>addEvent\<close> of a 700-minute event with that id returns.\<close>

theorem markAsPosted_absent_counterexample:
  "map_of (events new_EventQueue) ''x'' = None
   \<and> fst (addEvent (example_completed ''x'' 0 42000000 700) 1 new_EventQueue) = True
   \<and> fst (addEvent (example_completed ''x'' 0 42000000 700) 1 (markAsPosted ''x'' new_EventQueue))
       = False"
  by (simp add: addEvent_def markAsPosted_def example_defs js_number_def)

section \<open>Properties of the event tracker\<close>

subsection \<open>The loop over the features\<close>

lemma update_absent: "map_of al k = None \<Longrightarrow> AList.update k v al = al @ [(k, v)]"
  by (induction al) (auto split: if_splits)

lemma tracked_update_same:
  "map_of al k = Some e \<Longrightarrow> siteId e' = siteId e \<Longrightarrow> startTime e' = startTime e
   \<Longrightarrow> tracked (AList.update k e' al) = tracked al"
  by (induction al) (auto simp: tracked_def split: if_splits)

lemma process_feature_skip:
  "dischargingSiteId f = None \<Longrightarrow> process_feature wc ck now f acc = acc"
  by (auto simp: process_feature_def dischargingSiteId_def parseFeature_def Let_def
      split: option.splits if_splits)

lemma process_feature_new:
  assumes "dischargingSiteId f = Some sid"
    and "map_of (activeEvents (fst acc)) (ck @ '':'' @ sid) = None"
  shows "\<exists>e. process_feature wc ck now f acc =
           ((fst acc)\<lparr>db := db (fst acc) @ [e],
                      activeEvents := activeEvents (fst acc) @ [(ck @ '':'' @ sid, e)]\<rparr>,
            insert sid (snd acc))
         \<and> ev_id e = ck @ '':'' @ sid \<and> siteId e = sid \<and> status e = Active
         \<and> startTime e = or_number (attr_StatusStart f) now
         \<and> endTime e = None \<and> durationMinutes e = None \<and> waterCompany e = wc"
  using assms
  by (auto simp: process_feature_def dischargingSiteId_def parseFeature_def Let_def
      upsertEvent_def update_absent split: option.splits if_splits)

lemma process_feature_existing:
  assumes "dischargingSiteId f = Some sid"
    and "map_of (activeEvents (fst acc)) (ck @ '':'' @ sid) = Some e"
  shows "process_feature wc ck now f acc =
           ((fst acc)\<lparr>activeEvents := AList.update (ck @ '':'' @ sid)
                         (e\<lparr>rawData := f, receivingWatercourse := attr_ReceivingWaterCourse f\<rparr>)
                         (activeEvents (fst acc)),
                      db := db (fst acc) @ [e\<lparr>rawData := f,
                              receivingWatercourse := attr_ReceivingWaterCourse f\<rparr>]\<rparr>,
            insert sid (snd acc))"
  using assms
  by (auto simp: process_feature_def dischargingSiteId_def parseFeature_def Let_def
      upsertEvent_def split: option.splits if_splits)


lemma process_feature_queue:
  "eventQueue (fst (process_feature wc ck now f acc)) = eventQueue (fst acc)"
  by (auto simp: process_feature_def parseFeature_def Let_def upsertEvent_def
      split: option.splits if_splits)

lemma process_feature_sites:
  "snd (process_feature wc ck now f acc) =
     (case dischargingSiteId f of None \<Rightarrow> snd acc | Some sid \<Rightarrow> insert sid (snd acc))"
  by (auto simp: process_feature_def dischargingSiteId_def parseFeature_def Let_def
      split: option.splits if_splits)

lemma process_feature_tracked:
  "tracked (activeEvents (fst (process_feature wc ck now f acc))) =
     (case dischargingSiteId f of
        None \<Rightarrow> tracked (activeEvents (fst acc))
      | Some sid \<Rightarrow>
          if map_of (activeEvents (fst acc)) (ck @ '':'' @ sid) = None
          then tracked (activeEvents (fst acc))
                 @ [(ck @ '':'' @ sid, sid, or_number (attr_StatusStart f) now)]
          else tracked (activeEvents (fst acc)))"
proof (cases "dischargingSiteId f")
  case None
  then show ?thesis by (simp add: process_feature_skip)
next
  case (Some sid)
  show ?thesis
  proof (cases "map_of (activeEvents (fst acc)) (ck @ '':'' @ sid)")
    case None
    from process_feature_new [OF Some None, of wc now] obtain e where
      "process_feature wc ck now f acc =
           ((fst acc)\<lparr>db := db (fst acc) @ [e],
                      activeEvents := activeEvents (fst acc) @ [(ck @ '':'' @ sid, e)]\<rparr>,
            insert sid (snd acc))"
      and "siteId e = sid" and "startTime e = or_number (attr_StatusStart f) now"
      by blast
    with Some None show ?thesis by (simp add: tracked_def)
  next
    case (Some e)
    with \<open>dischargingSiteId f = Some sid\<close> show ?thesis
      by (simp add: process_feature_existing tracked_update_same)
  qed
qed

lemma tracked_keys: "map fst (tracked m) = map fst m"
  by (simp add: tracked_def comp_def)

lemma process_feature_keys:
  "map fst (activeEvents (fst (process_feature wc ck now f acc))) =
     (case dischargingSiteId f of
        None \<Rightarrow> map fst (activeEvents (fst acc))
      | Some sid \<Rightarrow>
          if ck @ '':'' @ sid \<in> fst ` set (activeEvents (fst acc))
          then map fst (activeEvents (fst acc))
          else map fst (activeEvents (fst acc)) @ [ck @ '':'' @ sid])"
proof -
  have "map fst (activeEvents (fst (process_feature wc ck now f acc)))
      = map fst (tracked (activeEvents (fst (process_feature wc ck now f acc))))"
    by (simp only: tracked_keys)
  also have "\<dots> = (case dischargingSiteId f of
        None \<Rightarrow> map fst (activeEvents (fst acc))
      | Some sid \<Rightarrow>
          if ck @ '':'' @ sid \<in> fst ` set (activeEvents (fst acc))
          then map fst (activeEvents (fst acc))
          else map fst (activeEvents (fst acc)) @ [ck @ '':'' @ sid])"
    unfolding process_feature_tracked
    by (simp add: tracked_keys map_of_eq_None_iff split: option.splits)
  finally show ?thesis .
qed

lemma fold_process_queue:
  "eventQueue (fst (fold (process_feature wc ck now) fs acc)) = eventQueue (fst acc)"
  by (induction fs arbitrary: acc) (simp_all add: process_feature_queue)

lemma fold_process_sites:
  "snd (fold (process_feature wc ck now) fs acc) =
     snd acc \<union> {sid. \<exists>f \<in> set fs. dischargingSiteId f = Some sid}"
proof (induction fs arbitrary: acc)
  case Nil
  show ?case by simp
next
  case (Cons f fs)
  show ?case
    by (cases "dischargingSiteId f") (auto simp: Cons.IH process_feature_sites)
qed

lemma process_feature_keys_mono:
  "k \<in> fst ` set (activeEvents (fst acc))
   \<Longrightarrow> k \<in> fst ` set (activeEvents (fst (process_feature wc ck now f acc)))"
proof -
  assume "k \<in> fst ` set (activeEvents (fst acc))"
  then have "k \<in> set (map fst (activeEvents (fst acc)))" by simp
  then have "k \<in> set (map fst (activeEvents (fst (process_feature wc ck now f acc))))"
    unfolding process_feature_keys by (auto split: option.splits)
  then show ?thesis by simp
qed

lemma fold_process_keys_mono:
  "k \<in> fst ` set (activeEvents (fst acc))
   \<Longrightarrow> k \<in> fst ` set (activeEvents (fst (fold (process_feature wc ck now) fs acc)))"
  by (induction fs arbitrary: acc) (simp_all add: process_feature_keys_mono)

lemma process_feature_key_present:
  assumes "dischargingSiteId f = Some sid"
  shows "ck @ '':'' @ sid \<in> fst ` set (activeEvents (fst (process_feature wc ck now f acc)))"
proof -
  have "ck @ '':'' @ sid \<in> set (map fst (activeEvents (fst (process_feature wc ck now f acc))))"
    unfolding process_feature_keys using assms by auto
  then show ?thesis by simp
qed

lemma fold_process_key_present:
  "f \<in> set fs \<Longrightarrow> dischargingSiteId f = Some sid
   \<Longrightarrow> ck @ '':'' @ sid \<in> fst ` set (activeEvents (fst (fold (process_feature wc ck now) fs acc)))"
proof (induction fs arbitrary: acc)
  case Nil
  then show ?case by simp
next
  case (Cons g fs)
  show ?case
  proof (cases "f = g")
    case True
    with Cons.prems have "dischargingSiteId g = Some sid" by simp
    then have "ck @ '':'' @ sid \<in> fst ` set (activeEvents (fst (process_feature wc ck now g acc)))"
      by (rule process_feature_key_present)
    then show ?thesis
      by (simp add: fold_process_keys_mono)
  next
    case False
    with Cons show ?thesis by simp
  qed
qed

lemma fold_process_tracked_same:
  "(\<forall>f \<in> set fs. \<forall>sid. dischargingSiteId f = Some sid
        \<longrightarrow> ck @ '':'' @ sid \<in> fst ` set (activeEvents (fst acc)))
   \<Longrightarrow> tracked (activeEvents (fst (fold (process_feature wc ck now) fs acc)))
        = tracked (activeEvents (fst acc))"
proof (induction fs arbitrary: acc)
  case Nil
  show ?case by simp
next
  case (Cons f fs)
  have same: "tracked (activeEvents (fst (process_feature wc ck now f acc)))
      = tracked (activeEvents (fst acc))"
    using Cons.prems
    by (cases "dischargingSiteId f") (auto simp: process_feature_tracked map_of_eq_None_iff)
  have "\<forall>g \<in> set fs. \<forall>sid. dischargingSiteId g = Some sid
        \<longrightarrow> ck @ '':'' @ sid \<in> fst ` set (activeEvents (fst (process_feature wc ck now f acc)))"
    using Cons.prems by (simp add: process_feature_keys_mono)
  then have "tracked (activeEvents (fst (fold (process_feature wc ck now) fs
                (process_feature wc ck now f acc))))
      = tracked (activeEvents (fst (process_feature wc ck now f acc)))"
    by (rule Cons.IH)
  with same show ?case by simp
qed

subsection \<open>The loop over the active events\<close>

lemma ended_loop_none:
  "(\<forall>x \<in> set es. \<not> ended ck act x) \<Longrightarrow> ended_loop ck now act es st = st"
  by (induction es arbitrary: st) (auto simp: ended_def)

lemma ended_loop_activeEvents:
  "activeEvents (ended_loop ck now act es st) =
     filter (\<lambda>kv. fst kv \<notin> fst ` {x \<in> set es. ended ck act x}) (activeEvents st)"
proof (induction es arbitrary: st)
  case Nil
  show ?case by simp
next
  case (Cons a es)
  obtain k e where a: "a = (k, e)" by (cases a)
  show ?case
  proof (cases "ended ck act (k, e)")
    case True
    have "{x \<in> set (a # es). ended ck act x} = insert (k, e) {x \<in> set es. ended ck act x}"
      using True a by auto
    then have "filter (\<lambda>kv. fst kv \<notin> fst ` {x \<in> set (a # es). ended ck act x}) (activeEvents st)
        = filter (\<lambda>kv. fst kv \<notin> fst ` {x \<in> set es. ended ck act x})
            (AList.delete k (activeEvents st))"
      by (auto simp: AList.delete_eq intro!: filter_cong)
    with True show ?thesis
      by (simp add: a Cons.IH ended_def Let_def generateDischargeSummary_def upsertEvent_def)
  next
    case False
    have "{x \<in> set (a # es). ended ck act x} = {x \<in> set es. ended ck act x}"
      using False a by auto
    with False show ?thesis
      by (auto simp: a Cons.IH ended_def)
  qed
qed

lemma ended_loop_db:
  "db (ended_loop ck now act es st) =
     db st @ map (\<lambda>kv. completed now (snd kv)) (filter (ended ck act) es)"
proof (induction es arbitrary: st)
  case Nil
  show ?case by simp
next
  case (Cons a es)
  obtain k e where a: "a = (k, e)" by (cases a)
  show ?case
    by (cases "ended ck act (k, e)")
       (auto simp: a Cons.IH ended_def Let_def generateDischargeSummary_def upsertEvent_def)
qed

lemma ended_loop_queue:
  "eventQueue (ended_loop ck now act es st) =
     fold (\<lambda>kv q. snd (addEvent (completed now (snd kv)) now q)) (filter (ended ck act) es)
       (eventQueue st)"
proof (induction es arbitrary: st)
  case Nil
  show ?case by simp
next
  case (Cons a es)
  obtain k e where a: "a = (k, e)" by (cases a)
  show ?case
    by (cases "ended ck act (k, e)")
       (auto simp: a Cons.IH ended_def Let_def generateDischargeSummary_def upsertEvent_def)
qed

lemma filter_distinct_keys:
  assumes "distinct (map fst m)"
  shows "filter (\<lambda>kv. fst kv \<notin> fst ` {x \<in> set m. P x}) m = filter (\<lambda>x. \<not> P x) m"
proof (rule filter_cong)
  fix x assume x: "x \<in> set m"
  show "(fst x \<notin> fst ` {x \<in> set m. P x}) = (\<not> P x)"
  proof
    assume "fst x \<notin> fst ` {x \<in> set m. P x}"
    with x show "\<not> P x" by force
  next
    assume n: "\<not> P x"
    show "fst x \<notin> fst ` {x \<in> set m. P x}"
    proof
      assume "fst x \<in> fst ` {x \<in> set m. P x}"
      then obtain y where y: "y \<in> set m" "P y" "fst y = fst x" by force
      with assms x have "y = x"
        by (metis eq_key_imp_eq_value prod.collapse)
      with y n show False by simp
    qed
  qed
qed simp

lemma processFeatures_activeEvents:
  assumes "distinct (map fst (activeEvents
             (fst (fold (process_feature wc (companyKeyOf wc) now) fs (st, {})))))"
  shows "activeEvents (processFeatures wc fs now st) =
     filter (\<lambda>x. \<not> ended (companyKeyOf wc)
                     (snd (fold (process_feature wc (companyKeyOf wc) now) fs (st, {}))) x)
       (activeEvents (fst (fold (process_feature wc (companyKeyOf wc) now) fs (st, {}))))"
  unfolding processFeatures_def Let_def ended_loop_activeEvents
  using assms by (rule filter_distinct_keys)

subsection \<open>The invariant is kept\<close>

lemma dropWhile_key:
  "CHR '':'' \<notin> set ck \<Longrightarrow> dropWhile (\<lambda>c. c \<noteq> CHR '':'') (ck @ CHR '':'' # sid) = CHR '':'' # sid"
  by (induction ck) auto

lemma process_feature_inv:
  assumes inv: "tracker_inv (fst acc)" and ck: "CHR '':'' \<notin> set ck"
  shows "tracker_inv (fst (process_feature wc ck now f acc))"
proof (cases "dischargingSiteId f")
  case None
  with inv show ?thesis by (simp add: process_feature_skip)
next
  case (Some sid)
  let ?k = "ck @ '':'' @ sid"
  show ?thesis
  proof (cases "map_of (activeEvents (fst acc)) ?k")
    case None
    from process_feature_new [OF Some None, of wc now] obtain e where
      e: "process_feature wc ck now f acc =
           ((fst acc)\<lparr>db := db (fst acc) @ [e],
                      activeEvents := activeEvents (fst acc) @ [(?k, e)]\<rparr>,
            insert sid (snd acc))"
      "ev_id e = ?k" "siteId e = sid" "status e = Active"
      by blast
    from None have "?k \<notin> fst ` set (activeEvents (fst acc))"
      by (simp add: map_of_eq_None_iff)
    with inv e ck show ?thesis
      by (auto simp: tracker_inv_def dropWhile_key)
  next
    case (Some e)
    let ?e = "e\<lparr>rawData := f, receivingWatercourse := attr_ReceivingWaterCourse f\<rparr>"
    have pf: "process_feature wc ck now f acc =
           ((fst acc)\<lparr>activeEvents := AList.update ?k ?e (activeEvents (fst acc)),
                      db := db (fst acc) @ [?e]\<rparr>,
            insert sid (snd acc))"
      using \<open>dischargingSiteId f = Some sid\<close> Some by (rule process_feature_existing)
    from Some have mem: "(?k, e) \<in> set (activeEvents (fst acc))"
      by (rule map_of_SomeD)
    have "ev_id (snd x) = fst x
          \<and> dropWhile (\<lambda>c. c \<noteq> CHR '':'') (fst x) = CHR '':'' # siteId (snd x)
          \<and> status (snd x) = Active"
      if "x \<in> set (AList.update ?k ?e (activeEvents (fst acc)))" for x
    proof -
      from that have "x = (?k, ?e) \<or> x \<in> set (activeEvents (fst acc))"
        by (rule set_update_cases)
      then show ?thesis
      proof
        assume "x = (?k, ?e)"
        with inv mem show ?thesis
          unfolding tracker_inv_def by force
      next
        assume "x \<in> set (activeEvents (fst acc))"
        with inv show ?thesis
          unfolding tracker_inv_def by blast
      qed
    qed
    moreover have "distinct (map fst (AList.update ?k ?e (activeEvents (fst acc))))"
      using inv by (simp add: tracker_inv_def distinct_update)
    ultimately show ?thesis
      unfolding pf tracker_inv_def by simp
  qed
qed

lemma fold_process_inv:
  "tracker_inv (fst acc) \<Longrightarrow> CHR '':'' \<notin> set ck
   \<Longrightarrow> tracker_inv (fst (fold (process_feature wc ck now) fs acc))"
  by (induction fs arbitrary: acc) (simp_all add: process_feature_inv)

lemma ended_loop_inv:
  "tracker_inv st \<Longrightarrow> tracker_inv (ended_loop ck now act es st)"
  unfolding tracker_inv_def ended_loop_activeEvents
  by (auto simp: distinct_map_filter)

lemma tracker_inv_new: "tracker_inv (new_EventTracker q)"
  by (simp add: tracker_inv_def new_EventTracker_def)

lemma processFeatures_inv:
  assumes "tracker_inv st" and "CHR '':'' \<notin> set (companyKeyOf wc)"
  shows "tracker_inv (processFeatures wc fs now st)"
  unfolding processFeatures_def Let_def
  using assms by (intro ended_loop_inv fold_process_inv) simp_all

lemma process_feature_db:
  assumes inv: "tracker_inv (fst acc)"
  shows "\<exists>xs. db (fst (process_feature wc ck now f acc)) = db (fst acc) @ xs
            \<and> (\<forall>x \<in> set xs. status x = Active)"
proof (cases "dischargingSiteId f")
  case None
  then show ?thesis by (simp add: process_feature_skip)
next
  case (Some sid)
  let ?k = "ck @ '':'' @ sid"
  show ?thesis
  proof (cases "map_of (activeEvents (fst acc)) ?k")
    case None
    from process_feature_new [OF Some None, of wc now] show ?thesis
      by auto
  next
    case (Some e)
    then have "(?k, e) \<in> set (activeEvents (fst acc))"
      by (rule map_of_SomeD)
    with inv have "status e = Active"
      unfolding tracker_inv_def by force
    with Some \<open>dischargingSiteId f = Some sid\<close> show ?thesis
      by (simp add: process_feature_existing)
  qed
qed

lemma fold_process_db:
  assumes "tracker_inv (fst acc)" and "CHR '':'' \<notin> set ck"
  shows "\<exists>xs. db (fst (fold (process_feature wc ck now) fs acc)) = db (fst acc) @ xs
            \<and> (\<forall>x \<in> set xs. status x = Active)"
  using assms
proof (induction fs arbitrary: acc)
  case Nil
  show ?case by simp
next
  case (Cons f fs)
  from process_feature_db [OF Cons.prems(1), of wc ck now f] obtain xs where
    xs: "db (fst (process_feature wc ck now f acc)) = db (fst acc) @ xs"
      "\<forall>x \<in> set xs. status x = Active"
    by blast
  have "tracker_inv (fst (process_feature wc ck now f acc))"
    using Cons.prems by (rule process_feature_inv)
  from Cons.IH [OF this Cons.prems(2)] obtain ys where
    ys: "db (fst (fold (process_feature wc ck now) fs (process_feature wc ck now f acc)))
          = db (fst (process_feature wc ck now f acc)) @ ys"
      "\<forall>x \<in> set ys. status x = Active"
    by blast
  from xs ys have "db (fst (fold (process_feature wc ck now) (f # fs) acc)) = db (fst acc) @ (xs @ ys)
      \<and> (\<forall>x \<in> set (xs @ ys). status x = Active)"
    by auto
  then show ?case by blast
qed

subsection \<open>Durations of completed events\<close>

lemma Math_round_minutes: "Math_round (real_of_int ms / (1000 * 60)) = (ms + 30000) div 60000"
proof -
  have "real_of_int ms / (1000 * 60) + 1 / 2 = real_of_int (ms + 30000) / real_of_int 60000"
    by (simp add: field_simps)
  then show ?thesis
    unfolding Math_round_def by (simp only: floor_divide_of_int_eq)
qed

lemma completed_fields:
  "status (completed now e) = Completed"
  "endTime (completed now e) = Some now"
  "startTime (completed now e) = startTime e"
  "durationMinutes (completed now e) = Some (Math_round (real_of_int (now - startTime e) / (1000 * 60)))"
  by (simp_all add: completed_def)

lemma processFeatures_db:
  assumes inv: "tracker_inv st" and ck: "CHR '':'' \<notin> set (companyKeyOf wc)"
  shows "\<exists>xs es. db (processFeatures wc fs now st) = db st @ xs @ map (completed now) es
            \<and> (\<forall>x \<in> set xs. status x = Active)"
proof -
  let ?acc = "fold (process_feature wc (companyKeyOf wc) now) fs (st, {})"
  from inv have "tracker_inv (fst (st, {}::string set))" by simp
  from fold_process_db [OF this ck, of wc now fs] obtain xs where
    xs: "db (fst ?acc) = db st @ xs" "\<forall>x \<in> set xs. status x = Active"
    by auto
  have "db (processFeatures wc fs now st) =
      db (fst ?acc) @ map (\<lambda>kv. completed now (snd kv))
         (filter (ended (companyKeyOf wc) (snd ?acc)) (activeEvents (fst ?acc)))"
    by (simp add: processFeatures_def Let_def ended_loop_db)
  also have "map (\<lambda>kv. completed now (snd kv))
         (filter (ended (companyKeyOf wc) (snd ?acc)) (activeEvents (fst ?acc)))
      = map (completed now)
         (map snd (filter (ended (companyKeyOf wc) (snd ?acc)) (activeEvents (fst ?acc))))"
    by (simp add: comp_def)
  finally have "db (processFeatures wc fs now st) = db st @ xs @ map (completed now)
         (map snd (filter (ended (companyKeyOf wc) (snd ?acc)) (activeEvents (fst ?acc))))
      \<and> (\<forall>x \<in> set xs. status x = Active)"
    using xs by simp
  then show ?thesis by blast
qed

text \<open>
  C2, as the code has it. Every event that \<open>processFeatures\<close> hands to the database
  as completed has \<open>endTime = now\<close> and
  \<open>durationMinutes = round((endTime - startTime) / 60000)\<close>. The duration is not
  negative whenever \<open>startTime \<le> endTime\<close>; it is negative exactly when the start time
  lies more than 30000 ms after the end time. Nothing clamps it.
\<close>

theorem completed_duration:
  assumes inv: "tracker_inv st" and ck: "CHR '':'' \<notin> set (companyKeyOf wc)"
  shows "take (length (db st)) (db (processFeatures wc fs now st)) = db st
    \<and> (\<forall>e \<in> set (drop (length (db st)) (db (processFeatures wc fs now st))).
          status e = Completed \<longrightarrow>
            endTime e = Some now
            \<and> durationMinutes e = Some (Math_round (real_of_int (now - startTime e) / 60000))
            \<and> (startTime e \<le> now \<longrightarrow> 0 \<le> js_number (durationMinutes e))
            \<and> (js_number (durationMinutes e) < 0 \<longleftrightarrow> now - startTime e < - 30000))"
proof -
  from processFeatures_db [OF inv ck, of fs now] obtain xs es where
    d: "db (processFeatures wc fs now st) = db st @ xs @ map (completed now) es"
      and a: "\<forall>x \<in> set xs. status x = Active"
    by blast
  have main: "endTime e = Some now
            \<and> durationMinutes e = Some (Math_round (real_of_int (now - startTime e) / 60000))
            \<and> (startTime e \<le> now \<longrightarrow> 0 \<le> js_number (durationMinutes e))
            \<and> (js_number (durationMinutes e) < 0 \<longleftrightarrow> now - startTime e < - 30000)"
    if e: "e \<in> set (xs @ map (completed now) es)" and c: "status e = Completed" for e
  proof -
    from e c a have "e \<in> set (map (completed now) es)" by auto
    then obtain e0 where e0: "e = completed now e0" by auto
    have k: "(1000 * 60 :: real) = 60000" by simp
    have st: "startTime e = startTime e0"
      unfolding e0 by (rule completed_fields)
    have en: "endTime e = Some now"
      unfolding e0 by (rule completed_fields)
    have "durationMinutes e = Some (Math_round (real_of_int (now - startTime e0) / (1000 * 60)))"
      unfolding e0 by (rule completed_fields)
    then have du: "durationMinutes e = Some (Math_round (real_of_int (now - startTime e) / 60000))"
      by (simp only: st k)
    have m: "Math_round (real_of_int (now - startTime e) / 60000)
        = (now - startTime e + 30000) div 60000"
      using Math_round_minutes [of "now - startTime e"] by (simp only: k)
    have j: "js_number (durationMinutes e) = (now - startTime e + 30000) div 60000"
      by (simp only: du m js_number_def option.case)
    have g3: "startTime e \<le> now \<longrightarrow> 0 \<le> js_number (durationMinutes e)"
      unfolding j by (simp add: pos_imp_zdiv_nonneg_iff)
    have g4: "js_number (durationMinutes e) < 0 \<longleftrightarrow> now - startTime e < - 30000"
      unfolding j by (auto simp: pos_imp_zdiv_neg_iff)
    from en du g3 g4 show ?thesis by blast
  qed
  have t: "take (length (db st)) (db (processFeatures wc fs now st)) = db st"
    using d by simp
  have dr: "drop (length (db st)) (db (processFeatures wc fs now st)) = xs @ map (completed now) es"
    using d by simp
  show ?thesis
    unfolding dr using t main by blast
qed

subsection \<open>Replaying a snapshot\<close>

lemma tracked_not_ended:
  assumes t: "tracked m' = tracked m" and n: "\<forall>y \<in> set m. \<not> ended ck act y"
  shows "\<forall>x \<in> set m'. \<not> ended ck act x"
proof
  fix x assume "x \<in> set m'"
  then have "(fst x, siteId (snd x), startTime (snd x)) \<in> set (tracked m')"
    by (force simp: tracked_def)
  with t have "(fst x, siteId (snd x), startTime (snd x)) \<in> set (tracked m)" by simp
  then obtain y where "y \<in> set m" "fst y = fst x" "siteId (snd y) = siteId (snd x)"
    by (auto simp: tracked_def)
  with n show "\<not> ended ck act x"
    by (auto simp: ended_def)
qed

text \<open>
  C6. From a state of the tracker that satisfies its invariant, and for a company whose
  key has no colon, ingesting the same snapshot a second time right after the first
  creates no event and completes none: the active event ids, with their sites and start
  times, are the same list as before the second ingestion, the queue is untouched, and
  every record the second ingestion hands to the database is an active one.
\<close>

theorem replay_snapshot:
  assumes inv: "tracker_inv st" and ck: "CHR '':'' \<notin> set (companyKeyOf wc)"
  shows "tracked (activeEvents (processFeatures wc fs now2 (processFeatures wc fs now1 st)))
           = tracked (activeEvents (processFeatures wc fs now1 st))
    \<and> eventQueue (processFeatures wc fs now2 (processFeatures wc fs now1 st))
           = eventQueue (processFeatures wc fs now1 st)
    \<and> take (length (db (processFeatures wc fs now1 st)))
           (db (processFeatures wc fs now2 (processFeatures wc fs now1 st)))
           = db (processFeatures wc fs now1 st)
    \<and> (\<forall>e \<in> set (drop (length (db (processFeatures wc fs now1 st)))
                    (db (processFeatures wc fs now2 (processFeatures wc fs now1 st)))).
          status e = Active)"
proof -
  let ?ck = "companyKeyOf wc"
  let ?S = "{sid. \<exists>f \<in> set fs. dischargingSiteId f = Some sid}"
  let ?acc1 = "fold (process_feature wc ?ck now1) fs (st, {})"
  let ?st1 = "processFeatures wc fs now1 st"
  let ?acc2 = "fold (process_feature wc ?ck now2) fs (?st1, {})"
  have s1: "snd ?acc1 = ?S" and s2: "snd ?acc2 = ?S"
    by (simp_all add: fold_process_sites)
  have inv1': "tracker_inv (fst ?acc1)"
    using inv ck by (intro fold_process_inv) simp_all
  have inv1: "tracker_inv ?st1"
    using inv ck by (rule processFeatures_inv)
  have a1: "activeEvents ?st1 = filter (\<lambda>x. \<not> ended ?ck ?S x) (activeEvents (fst ?acc1))"
    using inv1' processFeatures_activeEvents [of wc now1 fs st]
    by (simp add: tracker_inv_def s1)
  have present: "?ck @ '':'' @ sid \<in> fst ` set (activeEvents ?st1)"
    if f: "f \<in> set fs" and d: "dischargingSiteId f = Some sid" for f sid
  proof -
    from f d have "?ck @ '':'' @ sid \<in> fst ` set (activeEvents (fst ?acc1))"
      by (rule fold_process_key_present)
    then obtain e where e: "(?ck @ '':'' @ sid, e) \<in> set (activeEvents (fst ?acc1))"
      by force
    with inv1' have "dropWhile (\<lambda>c. c \<noteq> CHR '':'') (?ck @ '':'' @ sid) = CHR '':'' # siteId e"
      unfolding tracker_inv_def by force
    with ck have "siteId e = sid"
      by (simp add: dropWhile_key)
    with f d have "\<not> ended ?ck ?S (?ck @ '':'' @ sid, e)"
      by (auto simp: ended_def)
    with e have "(?ck @ '':'' @ sid, e) \<in> set (activeEvents ?st1)"
      unfolding a1 by simp
    then show ?thesis by force
  qed
  then have "\<forall>f \<in> set fs. \<forall>sid. dischargingSiteId f = Some sid
        \<longrightarrow> ?ck @ '':'' @ sid \<in> fst ` set (activeEvents (fst (?st1, {}::string set)))"
    by simp
  then have t2: "tracked (activeEvents (fst ?acc2)) = tracked (activeEvents ?st1)"
    using fold_process_tracked_same [of fs ?ck "(?st1, {})" wc now2] by simp
  have "\<forall>y \<in> set (activeEvents ?st1). \<not> ended ?ck ?S y"
    unfolding a1 by simp
  with t2 have ne: "\<forall>x \<in> set (activeEvents (fst ?acc2)). \<not> ended ?ck ?S x"
    by (rule tracked_not_ended)
  have e2: "processFeatures wc fs now2 ?st1 = fst ?acc2"
  proof -
    have "processFeatures wc fs now2 ?st1
        = ended_loop ?ck now2 (snd ?acc2) (activeEvents (fst ?acc2)) (fst ?acc2)"
      by (simp only: processFeatures_def [of wc fs now2 ?st1] Let_def)
    also have "\<dots> = fst ?acc2"
      using ne by (simp only: s2 ended_loop_none)
    finally show ?thesis .
  qed
  have q2: "eventQueue (fst ?acc2) = eventQueue ?st1"
    by (simp add: fold_process_queue)
  from inv1 have "tracker_inv (fst (?st1, {}::string set))" by simp
  from fold_process_db [OF this ck, of wc now2 fs] obtain xs where
    xs: "db (fst ?acc2) = db ?st1 @ xs" "\<forall>x \<in> set xs. status x = Active"
    by auto
  show ?thesis
    unfolding e2 using t2 q2 xs by simp
qed

subsection \<open>Start times of new events\<close>

lemma process_feature_lookup_other:
  assumes "dischargingSiteId f \<noteq> Some sid"
  shows "map_of (activeEvents (fst (process_feature wc ck now f acc))) (ck @ '':'' @ sid)
       = map_of (activeEvents (fst acc)) (ck @ '':'' @ sid)"
proof (cases "dischargingSiteId f")
  case None
  then show ?thesis by (simp add: process_feature_skip)
next
  case (Some s)
  with assms have ne: "s \<noteq> sid" by simp
  show ?thesis
  proof (cases "map_of (activeEvents (fst acc)) (ck @ '':'' @ s)")
    case None
    from process_feature_new [OF Some None, of wc now] obtain e where
      "process_feature wc ck now f acc =
           ((fst acc)\<lparr>db := db (fst acc) @ [e],
                      activeEvents := activeEvents (fst acc) @ [(ck @ '':'' @ s, e)]\<rparr>,
            insert s (snd acc))"
      by blast
    with ne show ?thesis
      by (simp add: map_add_def split: option.splits)
  next
    case (Some e)
    with \<open>dischargingSiteId f = Some s\<close> ne show ?thesis
      by (simp add: process_feature_existing update_conv')
  qed
qed

lemma process_feature_lookup_same:
  assumes "map_of (activeEvents (fst acc)) k = Some e"
  shows "\<exists>e'. map_of (activeEvents (fst (process_feature wc ck now f acc))) k = Some e'
           \<and> startTime e' = startTime e \<and> siteId e' = siteId e \<and> status e' = status e
           \<and> ev_id e' = ev_id e \<and> endTime e' = endTime e"
proof (cases "dischargingSiteId f")
  case None
  with assms show ?thesis by (simp add: process_feature_skip)
next
  case (Some s)
  show ?thesis
  proof (cases "map_of (activeEvents (fst acc)) (ck @ '':'' @ s)")
    case None
    from process_feature_new [OF Some None, of wc now] obtain e0 where
      "process_feature wc ck now f acc =
           ((fst acc)\<lparr>db := db (fst acc) @ [e0],
                      activeEvents := activeEvents (fst acc) @ [(ck @ '':'' @ s, e0)]\<rparr>,
            insert s (snd acc))"
      by blast
    with assms show ?thesis
      by (simp add: map_add_def)
  next
    case (Some e1)
    with \<open>dischargingSiteId f = Some s\<close> assms show ?thesis
      by (cases "k = ck @ '':'' @ s") (auto simp: process_feature_existing update_conv')
  qed
qed

lemma fold_process_lookup_same:
  "map_of (activeEvents (fst acc)) k = Some e
   \<Longrightarrow> \<exists>e'. map_of (activeEvents (fst (fold (process_feature wc ck now) fs acc))) k = Some e'
           \<and> startTime e' = startTime e \<and> siteId e' = siteId e \<and> status e' = status e
           \<and> ev_id e' = ev_id e \<and> endTime e' = endTime e"
proof (induction fs arbitrary: acc e)
  case Nil
  then show ?case by simp
next
  case (Cons f fs)
  from process_feature_lookup_same [OF Cons.prems, of wc ck now f] obtain e1 where
    e1: "map_of (activeEvents (fst (process_feature wc ck now f acc))) k = Some e1"
      "startTime e1 = startTime e" "siteId e1 = siteId e" "status e1 = status e"
      "ev_id e1 = ev_id e" "endTime e1 = endTime e"
    by blast
  from Cons.IH [OF e1(1)] e1(2-) show ?case by auto
qed

lemma fold_process_first:
  assumes "map_of (activeEvents (fst acc)) (ck @ '':'' @ sid) = None"
    and "find (\<lambda>f. dischargingSiteId f = Some sid) fs = Some f"
  shows "\<exists>e. map_of (activeEvents (fst (fold (process_feature wc ck now) fs acc)))
                (ck @ '':'' @ sid) = Some e
           \<and> startTime e = or_number (attr_StatusStart f) now \<and> siteId e = sid
           \<and> status e = Active \<and> ev_id e = ck @ '':'' @ sid \<and> endTime e = None"
  using assms
proof (induction fs arbitrary: acc)
  case Nil
  then show ?case by simp
next
  case (Cons g fs)
  show ?case
  proof (cases "dischargingSiteId g = Some sid")
    case True
    with Cons.prems have fg: "f = g" by simp
    from process_feature_new [OF True Cons.prems(1), of wc now] obtain e where
      pf: "process_feature wc ck now g acc =
           ((fst acc)\<lparr>db := db (fst acc) @ [e],
                      activeEvents := activeEvents (fst acc) @ [(ck @ '':'' @ sid, e)]\<rparr>,
            insert sid (snd acc))"
      and e: "ev_id e = ck @ '':'' @ sid" "siteId e = sid" "status e = Active"
        "startTime e = or_number (attr_StatusStart g) now" "endTime e = None"
      by blast
    have "map_of (activeEvents (fst (process_feature wc ck now g acc))) (ck @ '':'' @ sid) = Some e"
      using Cons.prems(1) by (simp add: pf map_add_def)
    from fold_process_lookup_same [OF this, of wc ck now fs] e fg show ?thesis
      by auto
  next
    case False
    with Cons.prems have "find (\<lambda>f. dischargingSiteId f = Some sid) fs = Some f" by simp
    moreover have "map_of (activeEvents (fst (process_feature wc ck now g acc))) (ck @ '':'' @ sid) = None"
      using process_feature_lookup_other [OF False, of wc ck now acc] Cons.prems(1) by simp
    ultimately show ?thesis
      using Cons.IH by simp
  qed
qed

lemma map_of_filter_keys:
  "map_of (filter (\<lambda>kv. fst kv \<notin> K) m) k = (if k \<in> K then None else map_of m k)"
  by (induction m) auto

lemma ended_loop_lookup:
  "map_of (activeEvents (ended_loop ck now act es st)) k =
     (if k \<in> fst ` {x \<in> set es. ended ck act x} then None else map_of (activeEvents st) k)"
  unfolding ended_loop_activeEvents by (rule map_of_filter_keys)

lemma process_feature_tracked_elems:
  assumes "x \<in> set (tracked (activeEvents (fst (process_feature wc ck now f acc))))"
  shows "x \<in> set (tracked (activeEvents (fst acc)))
       \<or> (\<exists>sid. dischargingSiteId f = Some sid \<and> fst x = ck @ '':'' @ sid \<and> fst (snd x) = sid)"
  using assms unfolding process_feature_tracked
  by (cases "dischargingSiteId f") (auto split: if_splits)

lemma fold_process_tracked_elems:
  "x \<in> set (tracked (activeEvents (fst (fold (process_feature wc ck now) fs acc))))
   \<Longrightarrow> x \<in> set (tracked (activeEvents (fst acc)))
       \<or> (\<exists>f \<in> set fs. \<exists>sid. dischargingSiteId f = Some sid \<and> fst x = ck @ '':'' @ sid
              \<and> fst (snd x) = sid)"
proof (induction fs arbitrary: acc)
  case Nil
  then show ?case by simp
next
  case (Cons g fs)
  from Cons.prems have "x \<in> set (tracked (activeEvents (fst (fold (process_feature wc ck now) fs
      (process_feature wc ck now g acc)))))"
    by simp
  from Cons.IH [OF this] show ?case
  proof
    assume "x \<in> set (tracked (activeEvents (fst (process_feature wc ck now g acc))))"
    from process_feature_tracked_elems [OF this] show ?thesis by auto
  next
    assume "\<exists>f \<in> set fs. \<exists>sid. dischargingSiteId f = Some sid \<and> fst x = ck @ '':'' @ sid
              \<and> fst (snd x) = sid"
    then show ?thesis by auto
  qed
qed

text \<open>
  C3, as the code has it. When a snapshot holds a discharging observation of a site whose
  event id has no active entry, the event created for it is active and its \<open>startTime\<close>
  is the \<open>StatusStart\<close> of the first such observation in the snapshot, whenever that is
  present and not 0; otherwise it is \<open>now\<close>. The timestamp is not checked in any other
  way.
\<close>

theorem new_event_startTime:
  assumes absent: "map_of (activeEvents st) (companyKeyOf wc @ '':'' @ sid) = None"
    and first: "find (\<lambda>f. dischargingSiteId f = Some sid) fs = Some f"
  shows "map_option startTime
           (map_of (activeEvents (processFeatures wc fs now st)) (companyKeyOf wc @ '':'' @ sid))
         = Some (case attr_StatusStart f of None \<Rightarrow> now | Some t \<Rightarrow> if t = 0 then now else t)
    \<and> map_option status
           (map_of (activeEvents (processFeatures wc fs now st)) (companyKeyOf wc @ '':'' @ sid))
         = Some Active"
proof -
  let ?ck = "companyKeyOf wc"
  let ?k = "?ck @ '':'' @ sid"
  let ?acc = "fold (process_feature wc ?ck now) fs (st, {})"
  from absent have "map_of (activeEvents (fst (st, {}::string set))) ?k = None" by simp
  from fold_process_first [OF this first, of wc now] obtain e where
    e: "map_of (activeEvents (fst ?acc)) ?k = Some e"
      "startTime e = or_number (attr_StatusStart f) now" "status e = Active"
    by blast
  have nk: "?k \<notin> fst ` {x \<in> set (activeEvents (fst ?acc)). ended ?ck (snd ?acc) x}"
  proof
    assume "?k \<in> fst ` {x \<in> set (activeEvents (fst ?acc)). ended ?ck (snd ?acc) x}"
    then obtain y where y: "y \<in> set (activeEvents (fst ?acc))" "fst y = ?k"
        "ended ?ck (snd ?acc) y"
      by auto
    from y(1) have "(fst y, siteId (snd y), startTime (snd y)) \<in> set (tracked (activeEvents (fst ?acc)))"
      by (force simp: tracked_def)
    from fold_process_tracked_elems [OF this]
    show False
    proof
      assume "(fst y, siteId (snd y), startTime (snd y)) \<in> set (tracked (activeEvents (fst (st, {}::string set))))"
      then have "?k \<in> fst ` set (activeEvents st)"
        using y(2) by (force simp: tracked_def)
      with absent show False
        by (simp add: map_of_eq_None_iff)
    next
      assume "\<exists>g \<in> set fs. \<exists>s. dischargingSiteId g = Some s
          \<and> fst (fst y, siteId (snd y), startTime (snd y)) = ?ck @ '':'' @ s
          \<and> fst (snd (fst y, siteId (snd y), startTime (snd y))) = s"
      then obtain g s where "g \<in> set fs" "dischargingSiteId g = Some s" "siteId (snd y) = s"
        by auto
      then have "siteId (snd y) \<in> snd ?acc"
        by (auto simp: fold_process_sites)
      with y(3) show False
        by (simp add: ended_def)
    qed
  qed
  have "map_of (activeEvents (processFeatures wc fs now st)) ?k = Some e"
    unfolding processFeatures_def Let_def ended_loop_lookup using nk e(1) by simp
  with e(2,3) show ?thesis
    by (simp add: or_number_def)
qed

lemma companyKeyOf_Thames: "companyKeyOf ''Thames Water'' = ''thames_water''"
  by code_simp

lemmas tracker_defs =
  processFeatures_def process_feature_def parseFeature_def example_feature_def
  empty_feature_def new_EventTracker_def new_EventQueue_def upsertEvent_def Let_def
  or_number_def or_string_def truthy_string_def generateDischargeSummary_def addEvent_def
  js_number_def completed_def Math_round_def dischargingSiteId_def companyKeyOf_Thames

theorem new_event_startTime_witness:
  "map_option startTime (map_of (activeEvents
      (processFeatures ''Thames Water''
         [example_feature ''X'' 0 (Some 300), example_feature ''Y'' 1 (Some 500),
          example_feature ''Y'' 1 (Some 700), example_feature ''Z'' 1 None]
         1000 (new_EventTracker new_EventQueue))) ''thames_water:Y'') = Some 500
   \<and> map_option startTime (map_of (activeEvents
      (processFeatures ''Thames Water''
         [example_feature ''X'' 0 (Some 300), example_feature ''Y'' 1 (Some 500),
          example_feature ''Y'' 1 (Some 700), example_feature ''Z'' 1 None]
         1000 (new_EventTracker new_EventQueue))) ''thames_water:Z'') = Some 1000"
proof -
  let ?fs = "[example_feature ''X'' 0 (Some 300), example_feature ''Y'' 1 (Some 500),
          example_feature ''Y'' 1 (Some 700), example_feature ''Z'' 1 None]"
  let ?st = "new_EventTracker new_EventQueue"
  have a: "map_of (activeEvents ?st) (companyKeyOf ''Thames Water'' @ '':'' @ sid) = None" for sid
    by (simp add: new_EventTracker_def)
  have y: "find (\<lambda>f. dischargingSiteId f = Some ''Y'') ?fs = Some (example_feature ''Y'' 1 (Some 500))"
    by (simp add: dischargingSiteId_def example_feature_def empty_feature_def)
  have z: "find (\<lambda>f. dischargingSiteId f = Some ''Z'') ?fs = Some (example_feature ''Z'' 1 None)"
    by (simp add: dischargingSiteId_def example_feature_def empty_feature_def)
  show ?thesis
    using new_event_startTime [OF a y, of 1000] new_event_startTime [OF a z, of 1000]
    by (simp add: companyKeyOf_Thames example_feature_def empty_feature_def)
qed

text \<open>The claim as stated fails: a status-change timestamp that lies in the future of
  the ingestion time (5000 against 1000), and one of the first millisecond of 1970, are
  both taken as the start time.\<close>

theorem new_event_startTime_counterexample:
  "map_option startTime (map_of (activeEvents
      (processFeatures ''Thames Water'' [example_feature ''X'' 1 (Some 5000)]
         1000 (new_EventTracker new_EventQueue))) ''thames_water:X'') = Some 5000
   \<and> map_option startTime (map_of (activeEvents
      (processFeatures ''Thames Water'' [example_feature ''X'' 1 (Some 1)]
         1700000000000 (new_EventTracker new_EventQueue))) ''thames_water:X'') = Some 1"
  by (simp add: tracker_defs)

subsection \<open>Concrete runs of the tracker\<close>

lemma colon_free_Thames: "CHR '':'' \<notin> set (companyKeyOf ''Thames Water'')"
  by (simp add: companyKeyOf_Thames)

theorem completed_duration_witness:
  "tracker_inv (processFeatures ''Thames Water'' [example_feature ''X'' 1 (Some 1000)] 2000
       (new_EventTracker new_EventQueue))
   \<and> CHR '':'' \<notin> set (companyKeyOf ''Thames Water'')
   \<and> take 1 (db (processFeatures ''Thames Water'' [example_feature ''X'' 0 (Some 42000000)] 42001000
       (processFeatures ''Thames Water'' [example_feature ''X'' 1 (Some 1000)] 2000
          (new_EventTracker new_EventQueue))))
      = db (processFeatures ''Thames Water'' [example_feature ''X'' 1 (Some 1000)] 2000
          (new_EventTracker new_EventQueue))
   \<and> map (\<lambda>e. (status e, startTime e, endTime e, durationMinutes e))
        (drop 1 (db (processFeatures ''Thames Water'' [example_feature ''X'' 0 (Some 42000000)] 42001000
       (processFeatures ''Thames Water'' [example_feature ''X'' 1 (Some 1000)] 2000
          (new_EventTracker new_EventQueue)))))
      = [(Completed, 1000, Some 42001000, Some 700)]"
proof -
  let ?st1 = "processFeatures ''Thames Water'' [example_feature ''X'' 1 (Some 1000)] 2000
          (new_EventTracker new_EventQueue)"
  let ?st2 = "processFeatures ''Thames Water'' [example_feature ''X'' 0 (Some 42000000)] 42001000 ?st1"
  have inv: "tracker_inv ?st1"
    using tracker_inv_new colon_free_Thames by (rule processFeatures_inv)
  have l: "length (db ?st1) = 1"
    by (simp add: tracker_defs)
  have d: "map (\<lambda>e. (status e, startTime e, endTime e, durationMinutes e)) (drop 1 (db ?st2))
      = [(Completed, 1000, Some 42001000, Some 700)]"
    by (simp add: tracker_defs)
  from completed_duration [OF inv colon_free_Thames, of "[example_feature ''X'' 0 (Some 42000000)]" 42001000]
  have "take 1 (db ?st2) = db ?st1"
    unfolding l by blast
  with inv colon_free_Thames d show ?thesis by blast
qed

text \<open>The claim as stated fails: an event whose status-change timestamp is ten minutes
  ahead of the clock is seen ended one minute later, and is completed with a duration
  of -9 minutes.\<close>

theorem negative_duration_counterexample:
  "map (\<lambda>e. (status e, startTime e, endTime e, durationMinutes e))
     (db (processFeatures ''Thames Water'' [example_feature ''X'' 0 None] 60000
       (processFeatures ''Thames Water'' [example_feature ''X'' 1 (Some 600000)] 0
          (new_EventTracker new_EventQueue))))
   = [(Active, 600000, None, None), (Completed, 600000, Some 60000, Some (- 9))]"
  by (simp add: tracker_defs)

theorem replay_snapshot_witness:
  "tracker_inv (new_EventTracker new_EventQueue)
   \<and> CHR '':'' \<notin> set (companyKeyOf ''Thames Water'')
   \<and> tracked (activeEvents
        (processFeatures ''Thames Water''
           [example_feature ''X'' 1 (Some 500), example_feature ''Y'' 1 None, example_feature ''W'' 0 None]
           61000
           (processFeatures ''Thames Water''
              [example_feature ''X'' 1 (Some 500), example_feature ''Y'' 1 None, example_feature ''W'' 0 None]
              1000 (new_EventTracker new_EventQueue))))
      = [(''thames_water:X'', ''X'', 500), (''thames_water:Y'', ''Y'', 1000)]
   \<and> eventQueue
        (processFeatures ''Thames Water''
           [example_feature ''X'' 1 (Some 500), example_feature ''Y'' 1 None, example_feature ''W'' 0 None]
           61000
           (processFeatures ''Thames Water''
              [example_feature ''X'' 1 (Some 500), example_feature ''Y'' 1 None, example_feature ''W'' 0 None]
              1000 (new_EventTracker new_EventQueue)))
      = new_EventQueue"
proof -
  let ?fs = "[example_feature ''X'' 1 (Some 500), example_feature ''Y'' 1 None, example_feature ''W'' 0 None]"
  let ?st0 = "new_EventTracker new_EventQueue"
  let ?st1 = "processFeatures ''Thames Water'' ?fs 1000 ?st0"
  have t: "tracked (activeEvents ?st1) = [(''thames_water:X'', ''X'', 500), (''thames_water:Y'', ''Y'', 1000)]"
    by (simp add: tracker_defs tracked_def)
  have q: "eventQueue ?st1 = new_EventQueue"
    by (simp add: tracker_defs)
  from replay_snapshot [OF tracker_inv_new [of new_EventQueue] colon_free_Thames,
      where fs = ?fs and ?now2.0 = 61000 and ?now1.0 = 1000]
  show ?thesis
    unfolding t q using tracker_inv_new colon_free_Thames by blast
qed

subsection \<open>A company whose fetch fails\<close>

lemma prefix_key_unique:
  assumes "prefix (a @ '':'') k" and "prefix (b @ '':'') k"
    and "CHR '':'' \<notin> set a" and "CHR '':'' \<notin> set b"
  shows "a = b"
proof -
  from assms(1) obtain r where r: "k = a @ CHR '':'' # r" by (auto simp: prefix_def)
  from assms(2) obtain s where s: "k = b @ CHR '':'' # s" by (auto simp: prefix_def)
  have "takeWhile (\<lambda>c. c \<noteq> CHR '':'') (a @ CHR '':'' # r) = a"
    using assms(3) by (induction a) auto
  moreover have "takeWhile (\<lambda>c. c \<noteq> CHR '':'') (b @ CHR '':'' # s) = b"
    using assms(4) by (induction b) auto
  ultimately show ?thesis
    using r s by simp
qed

lemma filter_update_other:
  "\<not> Q k \<Longrightarrow> filter (\<lambda>kv. Q (fst kv)) (AList.update k v al) = filter (\<lambda>kv. Q (fst kv)) al"
  by (induction al) auto

lemma filter_filter_implied:
  "(\<And>x. P x \<Longrightarrow> Q x) \<Longrightarrow> filter P (filter Q m) = filter P m"
  by (induction m) auto

lemma process_feature_other_company:
  assumes a: "CHR '':'' \<notin> set ckA" and b: "CHR '':'' \<notin> set ck" and ne: "ck \<noteq> ckA"
  shows "filter (\<lambda>kv. prefix (ckA @ '':'') (fst kv)) (activeEvents (fst (process_feature wc ck now f acc)))
       = filter (\<lambda>kv. prefix (ckA @ '':'') (fst kv)) (activeEvents (fst acc))"
proof (cases "dischargingSiteId f")
  case None
  then show ?thesis by (simp add: process_feature_skip)
next
  case (Some sid)
  have "prefix (ck @ '':'') (ck @ '':'' @ sid)" by simp
  with a b ne have np: "\<not> prefix (ckA @ '':'') (ck @ '':'' @ sid)"
    using prefix_key_unique by blast
  show ?thesis
  proof (cases "map_of (activeEvents (fst acc)) (ck @ '':'' @ sid)")
    case None
    from process_feature_new [OF Some None, of wc now] obtain e where
      "process_feature wc ck now f acc =
           ((fst acc)\<lparr>db := db (fst acc) @ [e],
                      activeEvents := activeEvents (fst acc) @ [(ck @ '':'' @ sid, e)]\<rparr>,
            insert sid (snd acc))"
      by blast
    with np show ?thesis by simp
  next
    case (Some e)
    have "filter (\<lambda>kv. prefix (ckA @ '':'') (fst kv))
            (AList.update (ck @ '':'' @ sid)
               (e\<lparr>rawData := f, receivingWatercourse := attr_ReceivingWaterCourse f\<rparr>)
               (activeEvents (fst acc)))
        = filter (\<lambda>kv. prefix (ckA @ '':'') (fst kv)) (activeEvents (fst acc))"
      using np by (rule filter_update_other)
    with Some \<open>dischargingSiteId f = Some sid\<close> show ?thesis
      by (simp add: process_feature_existing)
  qed
qed

lemma fold_process_other_company:
  assumes "CHR '':'' \<notin> set ckA" and "CHR '':'' \<notin> set ck" and "ck \<noteq> ckA"
  shows "filter (\<lambda>kv. prefix (ckA @ '':'') (fst kv))
           (activeEvents (fst (fold (process_feature wc ck now) fs acc)))
       = filter (\<lambda>kv. prefix (ckA @ '':'') (fst kv)) (activeEvents (fst acc))"
  using assms
  by (induction fs arbitrary: acc) (simp_all add: process_feature_other_company)

lemma processFeatures_other_company:
  assumes a: "CHR '':'' \<notin> set ckA" and b: "CHR '':'' \<notin> set (companyKeyOf wc)"
    and ne: "companyKeyOf wc \<noteq> ckA"
  shows "filter (\<lambda>kv. prefix (ckA @ '':'') (fst kv)) (activeEvents (processFeatures wc fs now st))
       = filter (\<lambda>kv. prefix (ckA @ '':'') (fst kv)) (activeEvents st)"
proof -
  let ?ck = "companyKeyOf wc"
  let ?acc = "fold (process_feature wc ?ck now) fs (st, {})"
  let ?E = "{x \<in> set (activeEvents (fst ?acc)). ended ?ck (snd ?acc) x}"
  have "fst kv \<notin> fst ` ?E" if "prefix (ckA @ '':'') (fst kv)" for kv :: "string \<times> event"
  proof
    assume "fst kv \<in> fst ` ?E"
    then obtain x where "ended ?ck (snd ?acc) x" "fst x = fst kv" by auto
    then have "prefix (?ck @ '':'') (fst kv)" by (simp add: ended_def)
    with that a b ne show False
      using prefix_key_unique by blast
  qed
  then have "filter (\<lambda>kv. prefix (ckA @ '':'') (fst kv))
               (filter (\<lambda>kv. fst kv \<notin> fst ` ?E) (activeEvents (fst ?acc)))
      = filter (\<lambda>kv. prefix (ckA @ '':'') (fst kv)) (activeEvents (fst ?acc))"
    by (rule filter_filter_implied)
  also have "\<dots> = filter (\<lambda>kv. prefix (ckA @ '':'') (fst kv)) (activeEvents (fst (st, {}::string set)))"
    using a b ne by (rule fold_process_other_company)
  finally show ?thesis
    by (simp add: processFeatures_def Let_def ended_loop_activeEvents)
qed

lemma checkAPI_loop_other_company:
  assumes skip: "g key = FetchError \<or> g key = Fetched None \<or> g key = Fetched (Some [])"
    and a: "CHR '':'' \<notin> set ckA"
    and others: "\<forall>kc \<in> set cs. fst kc \<noteq> key \<longrightarrow>
        CHR '':'' \<notin> set (companyKeyOf (company_name (snd kc)))
        \<and> companyKeyOf (company_name (snd kc)) \<noteq> ckA"
  shows "filter (\<lambda>kv. prefix (ckA @ '':'') (fst kv)) (activeEvents (checkAPI_loop cs g clock st))
       = filter (\<lambda>kv. prefix (ckA @ '':'') (fst kv)) (activeEvents st)"
  using others
proof (induction cs arbitrary: st)
  case Nil
  show ?case by simp
next
  case (Cons kc cs)
  obtain k c where kc: "kc = (k, c)" by (cases kc)
  from Cons.prems have rest: "\<forall>kc \<in> set cs. fst kc \<noteq> key \<longrightarrow>
        CHR '':'' \<notin> set (companyKeyOf (company_name (snd kc)))
        \<and> companyKeyOf (company_name (snd kc)) \<noteq> ckA"
    by simp
  show ?case
  proof (cases "k = key")
    case True
    with skip show ?thesis
      by (auto simp: kc Cons.IH [OF rest])
  next
    case False
    with Cons.prems kc have c: "CHR '':'' \<notin> set (companyKeyOf (company_name c))"
        "companyKeyOf (company_name c) \<noteq> ckA"
      by auto
    show ?thesis
      by (simp add: kc Cons.IH [OF rest] processFeatures_other_company [OF a c]
          split: fetch_result.splits option.splits)
  qed
qed

lemma companyKeyOf_configured:
  "companyKeyOf ''Anglian Water'' = ''anglian_water''"
  "companyKeyOf ''Thames Water'' = ''thames_water''"
  "companyKeyOf ''United Utilities'' = ''united_utilities''"
  "companyKeyOf ''Yorkshire Water'' = ''yorkshire_water''"
  "companyKeyOf ''Southern Water'' = ''southern_water''"
  "companyKeyOf ''Severn Trent Water'' = ''severn_trent_water''"
  by code_simp+

lemma WATER_COMPANIES_keys:
  "\<forall>kc \<in> set WATER_COMPANIES. companyKeyOf (company_name (snd kc)) = fst kc
      \<and> CHR '':'' \<notin> set (fst kc)"
  by (simp add: WATER_COMPANIES_def companyKeyOf_configured)

lemma process_feature_db_ids:
  assumes inv: "tracker_inv (fst acc)"
  shows "\<exists>xs. db (fst (process_feature wc ck now f acc)) = db (fst acc) @ xs
            \<and> (\<forall>x \<in> set xs. prefix (ck @ '':'') (ev_id x))"
proof (cases "dischargingSiteId f")
  case None
  then show ?thesis by (simp add: process_feature_skip)
next
  case (Some sid)
  let ?k = "ck @ '':'' @ sid"
  show ?thesis
  proof (cases "map_of (activeEvents (fst acc)) ?k")
    case None
    from process_feature_new [OF Some None, of wc now] show ?thesis
      by auto
  next
    case (Some e)
    then have "(?k, e) \<in> set (activeEvents (fst acc))"
      by (rule map_of_SomeD)
    with inv have "ev_id e = ?k"
      unfolding tracker_inv_def by force
    with Some \<open>dischargingSiteId f = Some sid\<close> show ?thesis
      by (simp add: process_feature_existing)
  qed
qed

lemma fold_process_db_ids:
  assumes "tracker_inv (fst acc)" and "CHR '':'' \<notin> set ck"
  shows "\<exists>xs. db (fst (fold (process_feature wc ck now) fs acc)) = db (fst acc) @ xs
            \<and> (\<forall>x \<in> set xs. prefix (ck @ '':'') (ev_id x))"
  using assms
proof (induction fs arbitrary: acc)
  case Nil
  show ?case by simp
next
  case (Cons f fs)
  from process_feature_db_ids [OF Cons.prems(1), of wc ck now f] obtain xs where
    xs: "db (fst (process_feature wc ck now f acc)) = db (fst acc) @ xs"
      "\<forall>x \<in> set xs. prefix (ck @ '':'') (ev_id x)"
    by blast
  have "tracker_inv (fst (process_feature wc ck now f acc))"
    using Cons.prems by (rule process_feature_inv)
  from Cons.IH [OF this Cons.prems(2)] obtain ys where
    ys: "db (fst (fold (process_feature wc ck now) fs (process_feature wc ck now f acc)))
          = db (fst (process_feature wc ck now f acc)) @ ys"
      "\<forall>x \<in> set ys. prefix (ck @ '':'') (ev_id x)"
    by blast
  from xs ys have "db (fst (fold (process_feature wc ck now) (f # fs) acc)) = db (fst acc) @ (xs @ ys)
      \<and> (\<forall>x \<in> set (xs @ ys). prefix (ck @ '':'') (ev_id x))"
    by auto
  then show ?case by blast
qed

lemma processFeatures_db_ids:
  assumes inv: "tracker_inv st" and ck: "CHR '':'' \<notin> set (companyKeyOf wc)"
  shows "\<exists>xs. db (processFeatures wc fs now st) = db st @ xs
            \<and> (\<forall>x \<in> set xs. prefix (companyKeyOf wc @ '':'') (ev_id x))"
proof -
  let ?ck = "companyKeyOf wc"
  let ?acc = "fold (process_feature wc ?ck now) fs (st, {})"
  let ?es = "filter (ended ?ck (snd ?acc)) (activeEvents (fst ?acc))"
  from inv have i0: "tracker_inv (fst (st, {}::string set))" by simp
  from fold_process_db_ids [OF i0 ck, of wc now fs] obtain xs where
    xs: "db (fst ?acc) = db st @ xs" "\<forall>x \<in> set xs. prefix (?ck @ '':'') (ev_id x)"
    by auto
  have inv': "tracker_inv (fst ?acc)"
    using i0 ck by (rule fold_process_inv)
  have "prefix (?ck @ '':'') (ev_id (completed now (snd kv)))" if "kv \<in> set ?es" for kv
  proof -
    from that have "kv \<in> set (activeEvents (fst ?acc))" "prefix (?ck @ '':'') (fst kv)"
      by (auto simp: ended_def)
    with inv' show ?thesis
      unfolding tracker_inv_def by (simp add: completed_def)
  qed
  then have "\<forall>x \<in> set (map (\<lambda>kv. completed now (snd kv)) ?es). prefix (?ck @ '':'') (ev_id x)"
    by auto
  moreover have "db (processFeatures wc fs now st) =
      db (fst ?acc) @ map (\<lambda>kv. completed now (snd kv)) ?es"
    by (simp add: processFeatures_def Let_def ended_loop_db)
  ultimately have "db (processFeatures wc fs now st)
        = db st @ (xs @ map (\<lambda>kv. completed now (snd kv)) ?es)
      \<and> (\<forall>x \<in> set (xs @ map (\<lambda>kv. completed now (snd kv)) ?es). prefix (?ck @ '':'') (ev_id x))"
    using xs by auto
  then show ?thesis by blast
qed

lemma checkAPI_loop_db_other_company:
  assumes skip: "g key = FetchError \<or> g key = Fetched None \<or> g key = Fetched (Some [])"
    and a: "CHR '':'' \<notin> set ckA"
    and others: "\<forall>kc \<in> set cs. fst kc \<noteq> key \<longrightarrow>
        CHR '':'' \<notin> set (companyKeyOf (company_name (snd kc)))
        \<and> companyKeyOf (company_name (snd kc)) \<noteq> ckA"
    and inv: "tracker_inv st"
  shows "tracker_inv (checkAPI_loop cs g clock st)
       \<and> (\<exists>xs. db (checkAPI_loop cs g clock st) = db st @ xs
            \<and> (\<forall>x \<in> set xs. \<not> prefix (ckA @ '':'') (ev_id x)))"
  using others inv
proof (induction cs arbitrary: st)
  case Nil
  then show ?case by simp
next
  case (Cons kc cs)
  obtain k c where kc: "kc = (k, c)" by (cases kc)
  from Cons.prems have rest: "\<forall>kc \<in> set cs. fst kc \<noteq> key \<longrightarrow>
        CHR '':'' \<notin> set (companyKeyOf (company_name (snd kc)))
        \<and> companyKeyOf (company_name (snd kc)) \<noteq> ckA"
    by simp
  show ?case
  proof (cases "\<exists>fs. g k = Fetched (Some fs) \<and> length fs > 0")
    case False
    then have "checkAPI_loop (kc # cs) g clock st = checkAPI_loop cs g clock st"
      by (auto simp: kc split: fetch_result.splits option.splits)
    with Cons.IH [OF rest Cons.prems(2)] show ?thesis by simp
  next
    case True
    then obtain fs where fs: "g k = Fetched (Some fs)" "length fs > 0" by blast
    with skip have "k \<noteq> key" by auto
    with Cons.prems kc have c: "CHR '':'' \<notin> set (companyKeyOf (company_name c))"
        "companyKeyOf (company_name c) \<noteq> ckA"
      by auto
    let ?st1 = "processFeatures (company_name c) fs (clock k) st"
    have l: "checkAPI_loop (kc # cs) g clock st = checkAPI_loop cs g clock ?st1"
      using fs by (simp add: kc)
    have inv1: "tracker_inv ?st1"
      using Cons.prems(2) c(1) by (rule processFeatures_inv)
    from processFeatures_db_ids [OF Cons.prems(2) c(1), of fs "clock k"] obtain xs where
      xs: "db ?st1 = db st @ xs"
        "\<forall>x \<in> set xs. prefix (companyKeyOf (company_name c) @ '':'') (ev_id x)"
      by blast
    from xs(2) a c have nxs: "\<forall>x \<in> set xs. \<not> prefix (ckA @ '':'') (ev_id x)"
      using prefix_key_unique by blast
    from Cons.IH [OF rest inv1] obtain ys where
      ys: "tracker_inv (checkAPI_loop cs g clock ?st1)"
        "db (checkAPI_loop cs g clock ?st1) = db ?st1 @ ys"
        "\<forall>x \<in> set ys. \<not> prefix (ckA @ '':'') (ev_id x)"
      by blast
    from xs(1) ys nxs have "tracker_inv (checkAPI_loop cs g clock ?st1)
        \<and> db (checkAPI_loop cs g clock ?st1) = db st @ (xs @ ys)
        \<and> (\<forall>x \<in> set (xs @ ys). \<not> prefix (ckA @ '':'') (ev_id x))"
      by auto
    then show ?thesis
      unfolding l by blast
  qed
qed

lemma checkAPI_inv:
  assumes "tracker_inv st"
  shows "tracker_inv (checkAPI g clock st)"
proof -
  have "tracker_inv (checkAPI_loop cs g clock st)"
    if "\<forall>kc \<in> set cs. CHR '':'' \<notin> set (companyKeyOf (company_name (snd kc)))"
      and "tracker_inv st" for cs st
    using that
  proof (induction cs arbitrary: st)
    case Nil
    then show ?case by simp
  next
    case (Cons kc cs)
    obtain k c where kc: "kc = (k, c)" by (cases kc)
    from Cons.prems kc have "tracker_inv (processFeatures (company_name c) fs (clock k) st)" for fs
      by (intro processFeatures_inv) auto
    with Cons show ?case
      by (auto simp: kc split: fetch_result.splits option.splits)
  qed
  moreover have "\<forall>kc \<in> set WATER_COMPANIES. CHR '':'' \<notin> set (companyKeyOf (company_name (snd kc)))"
    using WATER_COMPANIES_keys by auto
  ultimately show ?thesis
    using assms by (simp add: checkAPI_def)
qed

text \<open>
  C10. If, in a tick of \<open>checkAPI\<close>, the fetch for one configured company throws or
  returns no features, then the active events of that company (the entries whose key
  starts with the company's key and a colon) are after the tick what they were before
  it, in the same order; and from a state that satisfies the invariant, no record handed
  to the database during the tick belongs to that company.
\<close>

theorem failed_fetch_keeps_company:
  assumes c: "(key, c) \<in> set WATER_COMPANIES"
    and skip: "getAllOverflows key = FetchError \<or> getAllOverflows key = Fetched None
               \<or> getAllOverflows key = Fetched (Some [])"
  shows "filter (\<lambda>kv. prefix (companyKeyOf (company_name c) @ '':'') (fst kv))
           (activeEvents (checkAPI getAllOverflows clock st))
       = filter (\<lambda>kv. prefix (companyKeyOf (company_name c) @ '':'') (fst kv)) (activeEvents st)
    \<and> (tracker_inv st \<longrightarrow>
         take (length (db st)) (db (checkAPI getAllOverflows clock st)) = db st
         \<and> (\<forall>e \<in> set (drop (length (db st)) (db (checkAPI getAllOverflows clock st))).
               \<not> prefix (companyKeyOf (company_name c) @ '':'') (ev_id e)))"
proof -
  from c WATER_COMPANIES_keys have k: "companyKeyOf (company_name c) = key" "CHR '':'' \<notin> set key"
    by force+
  have o: "\<forall>kc \<in> set WATER_COMPANIES. fst kc \<noteq> key \<longrightarrow>
        CHR '':'' \<notin> set (companyKeyOf (company_name (snd kc)))
        \<and> companyKeyOf (company_name (snd kc)) \<noteq> key"
    using WATER_COMPANIES_keys by auto
  have f: "filter (\<lambda>kv. prefix (key @ '':'') (fst kv)) (activeEvents (checkAPI getAllOverflows clock st))
       = filter (\<lambda>kv. prefix (key @ '':'') (fst kv)) (activeEvents st)"
    unfolding checkAPI_def using skip k(2) o by (rule checkAPI_loop_other_company)
  have d: "take (length (db st)) (db (checkAPI getAllOverflows clock st)) = db st
         \<and> (\<forall>e \<in> set (drop (length (db st)) (db (checkAPI getAllOverflows clock st))).
               \<not> prefix (key @ '':'') (ev_id e))" if inv: "tracker_inv st"
  proof -
    have "tracker_inv (checkAPI_loop WATER_COMPANIES getAllOverflows clock st)
       \<and> (\<exists>xs. db (checkAPI_loop WATER_COMPANIES getAllOverflows clock st) = db st @ xs
            \<and> (\<forall>x \<in> set xs. \<not> prefix (key @ '':'') (ev_id x)))"
      using skip k(2) o inv by (rule checkAPI_loop_db_other_company)
    then obtain xs where
      "db (checkAPI getAllOverflows clock st) = db st @ xs"
      "\<forall>x \<in> set xs. \<not> prefix (key @ '':'') (ev_id x)"
      unfolding checkAPI_def by blast
    then show ?thesis by simp
  qed
  from f d show ?thesis
    unfolding k(1) by blast
qed

text \<open>Thames Water has one active event; in the next tick only the fetch for Anglian
  Water succeeds, the one for Thames Water throws. The Thames event stays as it was, and
  the only record written is the new Anglian event.\<close>

theorem failed_fetch_keeps_company_witness:
  "(''thames_water'', \<lparr>company_name = ''Thames Water'', updateFrequencyMinutes = 5, layerId = 0\<rparr>)
      \<in> set WATER_COMPANIES
   \<and> tracker_inv (processFeatures ''Thames Water'' [example_feature ''X'' 1 (Some 500)] 1000
         (new_EventTracker new_EventQueue))
   \<and> map fst (activeEvents (checkAPI
         (\<lambda>k. if k = ''anglian_water'' then Fetched (Some [example_feature ''A'' 1 None])
              else FetchError)
         (\<lambda>k. 2000)
         (processFeatures ''Thames Water'' [example_feature ''X'' 1 (Some 500)] 1000
            (new_EventTracker new_EventQueue))))
      = [''thames_water:X'', ''anglian_water:A'']
   \<and> filter (\<lambda>kv. prefix ''thames_water:'' (fst kv)) (activeEvents (checkAPI
         (\<lambda>k. if k = ''anglian_water'' then Fetched (Some [example_feature ''A'' 1 None])
              else FetchError)
         (\<lambda>k. 2000)
         (processFeatures ''Thames Water'' [example_feature ''X'' 1 (Some 500)] 1000
            (new_EventTracker new_EventQueue))))
      = activeEvents (processFeatures ''Thames Water'' [example_feature ''X'' 1 (Some 500)] 1000
            (new_EventTracker new_EventQueue))
   \<and> map ev_id (db (checkAPI
         (\<lambda>k. if k = ''anglian_water'' then Fetched (Some [example_feature ''A'' 1 None])
              else FetchError)
         (\<lambda>k. 2000)
         (processFeatures ''Thames Water'' [example_feature ''X'' 1 (Some 500)] 1000
            (new_EventTracker new_EventQueue))))
      = [''thames_water:X'', ''anglian_water:A'']"
proof -
  let ?c = "\<lparr>company_name = ''Thames Water'', updateFrequencyMinutes = 5, layerId = 0\<rparr>"
  let ?g = "\<lambda>k. if k = ''anglian_water'' then Fetched (Some [example_feature ''A'' 1 None])
              else FetchError"
  let ?st = "processFeatures ''Thames Water'' [example_feature ''X'' 1 (Some 500)] 1000
            (new_EventTracker new_EventQueue)"
  have c: "(''thames_water'', ?c) \<in> set WATER_COMPANIES"
    by (simp add: WATER_COMPANIES_def)
  have g: "?g ''thames_water'' = FetchError \<or> ?g ''thames_water'' = Fetched None
      \<or> ?g ''thames_water'' = Fetched (Some [])"
    by simp
  have inv: "tracker_inv ?st"
    using tracker_inv_new colon_free_Thames by (rule processFeatures_inv)
  have k: "map fst (activeEvents (checkAPI ?g (\<lambda>k. 2000) ?st))
      = [''thames_water:X'', ''anglian_water:A'']"
    by (simp add: checkAPI_def WATER_COMPANIES_def companyKeyOf_configured tracker_defs)
  have d: "map ev_id (db (checkAPI ?g (\<lambda>k. 2000) ?st)) = [''thames_water:X'', ''anglian_water:A'']"
    by (simp add: checkAPI_def WATER_COMPANIES_def companyKeyOf_configured tracker_defs)
  have a: "filter (\<lambda>kv. prefix ''thames_water:'' (fst kv)) (activeEvents ?st) = activeEvents ?st"
    by (simp add: tracker_defs)
  have "filter (\<lambda>kv. prefix ''thames_water:'' (fst kv)) (activeEvents (checkAPI ?g (\<lambda>k. 2000) ?st))
      = filter (\<lambda>kv. prefix ''thames_water:'' (fst kv)) (activeEvents ?st)"
    using failed_fetch_keeps_company [where key = "''thames_water''" and c = ?c
        and getAllOverflows = ?g and clock = "\<lambda>k. 2000" and st = ?st, OF c g]
    by (simp add: companyKeyOf_Thames)
  with a c inv k d show ?thesis by simp
qed

section \<open>Properties of the post scheduler\<close>

lemma fold_markAsPosted:
  "fold (\<lambda>e. markAsPosted (ev_id e)) evs q = q\<lparr>postedEvents := postedEvents q \<union> ev_id ` set evs\<rparr>"
  by (induction evs arbitrary: q) (auto simp: markAsPosted_def)

lemma processNextPost_fixedSchedule_all_or_nothing:
  assumes "fst (getPostableEvents q) \<noteq> []"
  shows "(publish_succeeded io \<longrightarrow>
            snd (processNextPost_fixedSchedule io (s, q))
              = q\<lparr>postedEvents := postedEvents q \<union> ev_id ` set (fst (getPostableEvents q))\<rparr>
            \<and> fst (getPostableEvents (snd (processNextPost_fixedSchedule io (s, q)))) = [])
       \<and> (\<not> publish_succeeded io \<longrightarrow> snd (processNextPost_fixedSchedule io (s, q)) = q)"
proof -
  let ?P = "postedEvents q \<union> ev_id ` set (fst (getPostableEvents q))"
  have "set (fst (getPostableEvents q)) = {e \<in> snd ` set (events q). ev_id e \<notin> postedEvents q}"
    by (auto simp: getPostableEvents_def Let_def set_array_sort)
  then have "filter (\<lambda>e. ev_id e \<notin> ?P) (map snd (events q)) = []"
    by (auto simp: filter_empty_conv)
  then have "fst (getPostableEvents (q\<lparr>postedEvents := ?P\<rparr>)) = []"
    by (simp add: getPostableEvents_def Let_def array_sort_def)
  with assms show ?thesis
    by (auto simp: processNextPost_fixedSchedule_def publish_succeeded_def Let_def fold_markAsPosted
        split: outcome.splits)
qed

text \<open>
  C5. All-or-nothing marking holds of the fixed-schedule revision (the lemma above) and
  fails in \<open>src/scheduler/post-scheduler.js\<close>: with two postable events and a cycle in
  which every collaborator succeeds, that scheduler hands both events to the publisher
  and marks only the first, so the other stays postable; the fixed-schedule revision
  marks both.
\<close>

theorem processNextPost_marks_first_only:
  "map ev_id (fst (getPostableEvents example_queue)) = [''b'', ''a'']
   \<and> publish_succeeded (example_io ''2025-11-29'')
   \<and> postedEvents (snd (processNextPost (example_io ''2025-11-29'') (new_PostScheduler, example_queue)))
        = {''b''}
   \<and> map ev_id (fst (getPostableEvents
        (snd (processNextPost (example_io ''2025-11-29'') (new_PostScheduler, example_queue)))))
        = [''a'']
   \<and> postedEvents (snd (processNextPost_fixedSchedule (example_io ''2025-11-29'')
          (new_PostScheduler, example_queue)))
        = {''a'', ''b''}"
  by (simp add: processNextPost_def processNextPost_fixedSchedule_def example_queue_def example_io_def
      publish_succeeded_def new_PostScheduler_def resetDailyCounterIfNeeded_def
      getPostableEvents_def addEvent_def queue_run_def markAsPosted_def example_defs
      sort_defs insert_commute)

subsection \<open>Publishes per day\<close>

text \<open>\<open>processNextPost\<close> never compares \<open>postsToday\<close> with \<open>maxPostsPerDay\<close>,
  which is only logged: in a cycle with a postable event whose publish succeeds, the count
  of the day (0 on a new date) goes up by one whatever it was, the first event is marked,
  and the outcome is the same for every value of \<open>maxPostsPerDay\<close>.\<close>

lemma processNextPost_ignores_maxPostsPerDay:
  assumes "fst (getPostableEvents q) \<noteq> []" and "publish_succeeded io"
  shows "postsToday (fst (processNextPost io (s, q)))
           = (if lastPostDate s = Some (today io) then postsToday s else 0) + 1
       \<and> snd (processNextPost io (s, q))
           = markAsPosted (ev_id (hd (fst (getPostableEvents q)))) q
       \<and> snd (processNextPost io (s\<lparr>maxPostsPerDay := m\<rparr>, q)) = snd (processNextPost io (s, q))
       \<and> postsToday (fst (processNextPost io (s\<lparr>maxPostsPerDay := m\<rparr>, q)))
           = postsToday (fst (processNextPost io (s, q)))"
  using assms
  by (auto simp: processNextPost_def publish_succeeded_def resetDailyCounterIfNeeded_def Let_def
      split: list.splits)

















end
